theory Spec2Isabelle
  imports Main "HOL-Library.Word" "HOL-Library.Monad_Syntax"
begin

unbundle bit_operations_syntax

chapter \<open>The buffer management core of BusTub: model\<close>

text \<open>
  Conventions of the embedding.
  \<^item> \<open>frame_id_t\<close> and \<open>page_id_t\<close> are \<open>int\<close>; \<open>size_t\<close> is \<open>64 word\<close>, so that
    \<open>+ 1\<close> and \<open>- 1\<close> wrap as they do in the source.
  \<^item> A circular, doubly linked list with a dummy node is the list of its nodes, read from
    \<open>dummy->next_\<close> (the head) to \<open>dummy->prev_\<close> (the tail).
  \<^item> A \<open>std::unordered_map\<close> from a frame id to the list node of that frame is the set of
    its keys: the node itself is the list element that carries the frame id.
  \<^item> A member \<open>name_\<close> of the source is the field \<open>name\<close> of the record.
  \<^item> An operation returns \<open>None\<close> when the source does not return normally: a failed
    \<open>assert\<close>, undefined behaviour (a read out of range, a dangling pointer, a signed
    overflow) or a loop that never ends.
\<close>

type_synonym size_t = "64 word"

section \<open>The legacy LRU replacer (lru\_replacer.cpp)\<close>

record LRUReplacer =
  page_size :: size_t
  cur_size :: size_t
  lru_nodes :: "int list"
  frames :: "int set"

definition LRUReplacer_init :: "size_t \<Rightarrow> LRUReplacer" where
  "LRUReplacer_init num_pages =
     \<lparr>page_size = num_pages, cur_size = 0, lru_nodes = [], frames = {}\<rparr>"

text \<open>
  \<open>Victim(frame_id_t *frame_id)\<close>: the argument \<open>out\<close> is the value the out-parameter
  holds before the call, the second component of the result the value it holds after.
  The list \<open>lru_nodes\<close> holds the frame ids of the nodes after \<open>dummy_node_\<close>.
  With \<open>cur_size \<noteq> 0\<close> and an empty list the source deletes the dummy node.
\<close>

definition Victim :: "LRUReplacer \<Rightarrow> int \<Rightarrow> (bool \<times> int \<times> LRUReplacer) option" where
  "Victim r out =
     (if cur_size r = 0 then Some (False, out, r)
      else if lru_nodes r = [] then None
      else
        let least_used = last (lru_nodes r)
        in Some (False, least_used,
             r\<lparr>lru_nodes := butlast (lru_nodes r),
               frames := frames r - {least_used},
               cur_size := cur_size r - 1\<rparr>))"

definition Pin :: "LRUReplacer \<Rightarrow> int \<Rightarrow> LRUReplacer option" where
  "Pin r f =
     (if f \<notin> frames r then Some r
      else if f \<notin> set (lru_nodes r) then None
      else Some (r\<lparr>lru_nodes := remove1 f (lru_nodes r),
                   frames := frames r - {f},
                   cur_size := cur_size r - 1\<rparr>))"

definition Unpin :: "LRUReplacer \<Rightarrow> int \<Rightarrow> LRUReplacer" where
  "Unpin r f =
     (if f \<in> frames r then r
      else if cur_size r = page_size r then r
      else r\<lparr>lru_nodes := f # lru_nodes r,
             frames := insert f (frames r),
             cur_size := cur_size r + 1\<rparr>)"

definition LRU_Size :: "LRUReplacer \<Rightarrow> size_t" where
  "LRU_Size r = cur_size r"

text \<open>The states the replacer is in between calls: the counter, the map and the list agree.\<close>

definition lru_inv :: "LRUReplacer \<Rightarrow> bool" where
  "lru_inv r \<longleftrightarrow>
     distinct (lru_nodes r) \<and> frames r = set (lru_nodes r) \<and>
     unat (cur_size r) = length (lru_nodes r) \<and> cur_size r \<le> page_size r"


section \<open>The LRU-K replacer (lru\_k\_replacer.cpp, lru\_k\_replacer.h)\<close>

record ListNode =
  frame_id :: int
  access_times :: size_t
  evictable :: bool

text \<open>\<open>ListNode(id)\<close>: no access yet, not evictable.\<close>

definition ListNode_init :: "int \<Rightarrow> ListNode" where
  "ListNode_init f = \<lparr>frame_id = f, access_times = 0, evictable = False\<rparr>"

text \<open>
  \<open>history_list\<close> and \<open>buffer_list\<close> are the nodes after \<open>history_dummy_\<close> and after
  \<open>buffer_dummy_\<close>; \<open>lru_k\<close> is the member \<open>k_\<close>. The member \<open>current_timestamp_\<close> is never
  read or written and is left out.
\<close>

record LRUKReplacer =
  curr_size :: size_t
  replacer_size :: size_t
  lru_k :: size_t
  history_list :: "ListNode list"
  history_frames :: "int set"
  history_frame_size :: size_t
  buffer_list :: "ListNode list"
  buffer_frames :: "int set"
  buffer_frame_size :: size_t

definition LRUKReplacer_init :: "size_t \<Rightarrow> size_t \<Rightarrow> LRUKReplacer" where
  "LRUKReplacer_init num_frames k =
     \<lparr>curr_size = 0, replacer_size = num_frames, lru_k = k,
      history_list = [], history_frames = {}, history_frame_size = 0,
      buffer_list = [], buffer_frames = {}, buffer_frame_size = 0\<rparr>"

text \<open>The node a map entry for frame \<open>f\<close> points to: the list node that carries \<open>f\<close>.\<close>

definition node_of :: "LRUKReplacer \<Rightarrow> int \<Rightarrow> ListNode option" where
  "node_of r f = find (\<lambda>n. frame_id n = f) (history_list r @ buffer_list r)"

text \<open>
  \<open>GetNode\<close>: \<open>Some None\<close> is the null pointer. The result is \<open>None\<close> when the assertion
  \<open>occurrence < 2\<close> fails, and when the map's pointer is to a node that is in no list (a
  node that was deleted).
\<close>

definition GetNode :: "LRUKReplacer \<Rightarrow> int \<Rightarrow> ListNode option option" where
  "GetNode r f =
     (if f \<in> history_frames r \<and> f \<in> buffer_frames r then None
      else if f \<in> history_frames r \<or> f \<in> buffer_frames r then
        (case node_of r f of None \<Rightarrow> None | Some n \<Rightarrow> Some (Some n))
      else Some None)"

text \<open>A write through a node pointer: the node with that frame id takes the new contents.\<close>

definition store_node :: "ListNode \<Rightarrow> ListNode list \<Rightarrow> ListNode list" where
  "store_node n xs = map (\<lambda>m. if frame_id m = frame_id n then n else m) xs"

definition unlink :: "int \<Rightarrow> ListNode list \<Rightarrow> ListNode list" where
  "unlink f xs = filter (\<lambda>m. frame_id m \<noteq> f) xs"

text \<open>\<open>InsertNode(dummy, newNode)\<close> on the list of \<open>dummy\<close>.\<close>

definition InsertNode :: "ListNode list \<Rightarrow> ListNode \<Rightarrow> ListNode list" where
  "InsertNode xs newNode = newNode # xs"

text \<open>\<open>EvictNodeFromList(node)\<close>: the node leaves the list it is linked in.\<close>

definition EvictNodeFromList :: "LRUKReplacer \<Rightarrow> ListNode \<Rightarrow> LRUKReplacer" where
  "EvictNodeFromList r node =
     r\<lparr>history_list := unlink (frame_id node) (history_list r),
       buffer_list := unlink (frame_id node) (buffer_list r)\<rparr>"

text \<open>
  \<open>MoveNodeToHead(dummy, node)\<close>: the node leaves the list it is linked in and is linked
  after \<open>dummy\<close>; \<open>to_history\<close> says that \<open>dummy\<close> is \<open>history_dummy_\<close>.
\<close>

definition MoveNodeToHead :: "bool \<Rightarrow> LRUKReplacer \<Rightarrow> ListNode \<Rightarrow> LRUKReplacer" where
  "MoveNodeToHead to_history r node =
     (let r1 = EvictNodeFromList r node
      in if to_history then r1\<lparr>history_list := InsertNode (history_list r1) node\<rparr>
         else r1\<lparr>buffer_list := InsertNode (buffer_list r1) node\<rparr>)"

definition GetFirstEvictableNode :: "LRUKReplacer \<Rightarrow> bool \<Rightarrow> ListNode option" where
  "GetFirstEvictableNode r in_history =
     find evictable (rev (if in_history then history_list r else buffer_list r))"

text \<open>The assertion \<open>(size_t)frame_id <= replacer_size_\<close>.\<close>

definition frame_id_ok :: "LRUKReplacer \<Rightarrow> int \<Rightarrow> bool" where
  "frame_id_ok r f \<longleftrightarrow> (word_of_int f :: size_t) \<le> replacer_size r"

text \<open>
  \<open>Evict(frame_id_t *frame_id)\<close>: \<open>out\<close> is the value of the out-parameter before the call;
  the result is the returned flag, the out-parameter after the call and the new state.
\<close>

definition Evict :: "LRUKReplacer \<Rightarrow> int \<Rightarrow> (bool \<times> int \<times> LRUKReplacer) option" where
  "Evict r out =
     (if curr_size r = 0 then Some (False, out, r)
      else
        case GetFirstEvictableNode r True of
          Some node \<Rightarrow>
            (let r1 = EvictNodeFromList r node
             in Some (True, frame_id node,
                  r1\<lparr>history_frames := history_frames r1 - {frame_id node},
                     history_frame_size := history_frame_size r1 - 1,
                     curr_size := curr_size r1 - 1\<rparr>))
        | None \<Rightarrow>
            (case GetFirstEvictableNode r False of
               None \<Rightarrow> None
             | Some node \<Rightarrow>
                 (let r1 = EvictNodeFromList r node
                  in Some (True, frame_id node,
                       r1\<lparr>buffer_frames := buffer_frames r1 - {frame_id node},
                          buffer_frame_size := buffer_frame_size r1 - 1,
                          curr_size := curr_size r1 - 1\<rparr>))))"

text \<open>
  The second half of \<open>RecordAccess\<close>, from \<open>node->access_times_++\<close> on, for the node
  \<open>node\<close> of the state \<open>r\<close>.
\<close>

definition count_access :: "LRUKReplacer \<Rightarrow> ListNode \<Rightarrow> LRUKReplacer" where
  "count_access r node =
     (let node1 = node\<lparr>access_times := access_times node + 1\<rparr>;
          r1 = r\<lparr>history_list := store_node node1 (history_list r),
                 buffer_list := store_node node1 (buffer_list r)\<rparr>
      in if access_times node1 = lru_k r1 then
           (let r2 = EvictNodeFromList r1 node1
            in r2\<lparr>history_frames := history_frames r2 - {frame_id node1},
                  history_frame_size := history_frame_size r2 - 1,
                  buffer_list := InsertNode (buffer_list r2) node1,
                  buffer_frames := insert (frame_id node1) (buffer_frames r2),
                  buffer_frame_size := buffer_frame_size r2 + 1\<rparr>)
         else if access_times node1 < lru_k r1 then
           (if access_times node1 \<noteq> 1 then MoveNodeToHead True r1 node1 else r1)
         else MoveNodeToHead False r1 node1)"

definition RecordAccess :: "LRUKReplacer \<Rightarrow> int \<Rightarrow> LRUKReplacer option" where
  "RecordAccess r f =
     (if \<not> frame_id_ok r f then None
      else
        case GetNode r f of
          None \<Rightarrow> None
        | Some (Some node) \<Rightarrow> Some (count_access r node)
        | Some None \<Rightarrow>
            if history_frame_size r + buffer_frame_size r = replacer_size r then Some r
            else
              (let node = ListNode_init f
               in Some (count_access
                    (r\<lparr>history_list := InsertNode (history_list r) node,
                       history_frames := insert f (history_frames r),
                       history_frame_size := history_frame_size r + 1\<rparr>) node)))"

definition SetEvictable :: "LRUKReplacer \<Rightarrow> int \<Rightarrow> bool \<Rightarrow> LRUKReplacer option" where
  "SetEvictable r f set_evictable =
     (if \<not> frame_id_ok r f then None
      else
        case GetNode r f of
          None \<Rightarrow> None
        | Some None \<Rightarrow> Some r
        | Some (Some node) \<Rightarrow>
            if evictable node = set_evictable then Some r
            else
              (let node1 = node\<lparr>evictable := set_evictable\<rparr>
               in Some (r\<lparr>history_list := store_node node1 (history_list r),
                          buffer_list := store_node node1 (buffer_list r),
                          curr_size := curr_size r + (if set_evictable then 1 else - 1)\<rparr>)))"

definition Remove :: "LRUKReplacer \<Rightarrow> int \<Rightarrow> LRUKReplacer option" where
  "Remove r f =
     (if \<not> frame_id_ok r f then None
      else
        case GetNode r f of
          None \<Rightarrow> None
        | Some None \<Rightarrow> Some r
        | Some (Some node) \<Rightarrow>
            if \<not> evictable node then Some r
            else
              (let r1 = EvictNodeFromList r node
               in if f \<in> history_frames r1 then
                    Some (r1\<lparr>history_frames := history_frames r1 - {f},
                             history_frame_size := history_frame_size r1 - 1,
                             curr_size := curr_size r1 - 1\<rparr>)
                  else
                    Some (r1\<lparr>buffer_frames := buffer_frames r1 - {f},
                             buffer_frame_size := buffer_frame_size r1 - 1,
                             curr_size := curr_size r1 - 1\<rparr>)))"

definition Size :: "LRUKReplacer \<Rightarrow> size_t" where
  "Size r = curr_size r"

text \<open>
  The states of the replacer between calls. The two lists hold one node for each key of
  their map and no other node, history nodes have fewer than \<open>k_\<close> accesses and cache
  nodes at least \<open>k_\<close>, and the three counters count what they are named after.
\<close>

definition lruk_inv :: "LRUKReplacer \<Rightarrow> bool" where
  "lruk_inv r \<longleftrightarrow>
     distinct (map frame_id (history_list r @ buffer_list r)) \<and>
     history_frames r = frame_id ` set (history_list r) \<and>
     buffer_frames r = frame_id ` set (buffer_list r) \<and>
     list_all (\<lambda>n. access_times n < lru_k r) (history_list r) \<and>
     list_all (\<lambda>n. lru_k r \<le> access_times n) (buffer_list r) \<and>
     unat (history_frame_size r) = length (history_list r) \<and>
     unat (buffer_frame_size r) = length (buffer_list r) \<and>
     unat (curr_size r) = length (filter evictable (history_list r @ buffer_list r)) \<and>
     length (history_list r) + length (buffer_list r) \<le> unat (replacer_size r)"

text \<open>What the buffer pool reads of the replacer: whether frame \<open>f\<close> can be evicted.\<close>

definition is_evictable :: "LRUKReplacer \<Rightarrow> int \<Rightarrow> bool" where
  "is_evictable r f \<longleftrightarrow>
     list_ex (\<lambda>n. frame_id n = f \<and> evictable n) (history_list r @ buffer_list r)"

definition tracked :: "LRUKReplacer \<Rightarrow> int \<Rightarrow> bool" where
  "tracked r f \<longleftrightarrow> f \<in> history_frames r \<or> f \<in> buffer_frames r"

text \<open>
  The weaker condition that every call keeps, whatever \<open>k_\<close> is: one node for a frame
  id, and no node whose frame id is in neither map.
\<close>

definition wf_lists :: "ListNode list \<Rightarrow> ListNode list \<Rightarrow> int set \<Rightarrow> int set \<Rightarrow> bool" where
  "wf_lists hs bs hf bf \<longleftrightarrow>
     distinct (map frame_id (hs @ bs)) \<and> frame_id ` set (hs @ bs) \<subseteq> hf \<union> bf"

definition lruk_wf :: "LRUKReplacer \<Rightarrow> bool" where
  "lruk_wf r \<longleftrightarrow>
     distinct (map frame_id (history_list r @ buffer_list r)) \<and>
     frame_id ` set (history_list r @ buffer_list r) \<subseteq> history_frames r \<union> buffer_frames r"

text \<open>The invariant of the replacer, on the parts of the state.\<close>

definition inv_parts ::
  "size_t \<Rightarrow> size_t \<Rightarrow> ListNode list \<Rightarrow> ListNode list \<Rightarrow> int set \<Rightarrow> int set \<Rightarrow>
   size_t \<Rightarrow> size_t \<Rightarrow> size_t \<Rightarrow> bool"
where
  "inv_parts k cap hs bs hf bf hsz bsz csz \<longleftrightarrow>
     distinct (map frame_id (hs @ bs)) \<and>
     hf = frame_id ` set hs \<and>
     bf = frame_id ` set bs \<and>
     list_all (\<lambda>n. access_times n < k) hs \<and>
     list_all (\<lambda>n. k \<le> access_times n) bs \<and>
     unat hsz = length hs \<and>
     unat bsz = length bs \<and>
     unat csz = length (filter evictable (hs @ bs)) \<and>
     length hs + length bs \<le> unat cap"

text \<open>The number of frames the replacer tracks.\<close>

definition num_tracked :: "LRUKReplacer \<Rightarrow> nat" where
  "num_tracked r = length (history_list r) + length (buffer_list r)"

section \<open>The extendible hash table (extendible\_hash\_table.cpp)\<close>

text \<open>
  A bucket: \<open>b_size\<close>, \<open>b_depth\<close> and \<open>b_list\<close> are the members \<open>size_\<close>, \<open>depth_\<close> and
  \<open>list_\<close>. The member \<open>prefix_\<close> is used by the commented-out \<open>Insert\<close> only and is left
  out. Depths are \<open>int\<close> in the source; they start at 0 and are only ever incremented, so
  they are \<open>nat\<close> here.
\<close>

record ('k, 'v) Bucket =
  b_size :: size_t
  b_depth :: nat
  b_list :: "('k \<times> 'v) list"

definition Bucket_init :: "size_t \<Rightarrow> nat \<Rightarrow> ('k, 'v) Bucket" where
  "Bucket_init array_size d = \<lparr>b_size = array_size, b_depth = d, b_list = []\<rparr>"

text \<open>
  Modelled from the spec: the inline members of \<open>Bucket\<close> are declared in
  extendible\_hash\_table.h, which is not under src/. \<open>IsFull\<close> and \<open>IsOverflow\<close> compare
  the number of entries with the capacity ("every bucket contains at most \<open>bucket_size\<close>
  entries", "if the bucket has room, append"); \<open>GetDepth\<close>, \<open>IncrementDepth\<close>,
  \<open>GetCopiedItems\<close> and \<open>ClearItems\<close> read the depth, add one to it, copy the list and
  empty it.
\<close>

definition IsFull :: "('k, 'v) Bucket \<Rightarrow> bool" where
  "IsFull b \<longleftrightarrow> length (b_list b) = unat (b_size b)"

definition IsOverflow :: "('k, 'v) Bucket \<Rightarrow> bool" where
  "IsOverflow b \<longleftrightarrow> length (b_list b) > unat (b_size b)"

definition GetDepth :: "('k, 'v) Bucket \<Rightarrow> nat" where
  "GetDepth b = b_depth b"

definition IncrementDepth :: "('k, 'v) Bucket \<Rightarrow> ('k, 'v) Bucket" where
  "IncrementDepth b = b\<lparr>b_depth := b_depth b + 1\<rparr>"

definition GetCopiedItems :: "('k, 'v) Bucket \<Rightarrow> ('k \<times> 'v) list" where
  "GetCopiedItems b = b_list b"

definition ClearItems :: "('k, 'v) Bucket \<Rightarrow> ('k, 'v) Bucket" where
  "ClearItems b = b\<lparr>b_list := []\<rparr>"

text \<open>The first entry with the key is overwritten, or erased.\<close>

fun assign_first :: "'k \<Rightarrow> 'v \<Rightarrow> ('k \<times> 'v) list \<Rightarrow> ('k \<times> 'v) list" where
  "assign_first k v [] = []"
| "assign_first k v (x # xs) = (if fst x = k then (k, v) # xs else x # assign_first k v xs)"

fun erase_first :: "'k \<Rightarrow> ('k \<times> 'v) list \<Rightarrow> ('k \<times> 'v) list" where
  "erase_first k [] = []"
| "erase_first k (x # xs) = (if fst x = k then xs else x # erase_first k xs)"

text \<open>
  \<open>Bucket::Find\<close> and \<open>Bucket::Remove\<close> start with \<open>assert(list_.size() <= size_)\<close>.
  \<open>Bucket_Find\<close> returns \<open>Some None\<close> for false and \<open>Some (Some v)\<close> for true with
  \<open>v\<close> stored in the out-parameter.
\<close>

definition Bucket_Find :: "('k, 'v) Bucket \<Rightarrow> 'k \<Rightarrow> 'v option option" where
  "Bucket_Find b k =
     (if length (b_list b) \<le> unat (b_size b) then Some (map_of (b_list b) k) else None)"

definition Bucket_Remove :: "('k, 'v) Bucket \<Rightarrow> 'k \<Rightarrow> (bool \<times> ('k, 'v) Bucket) option" where
  "Bucket_Remove b k =
     (if length (b_list b) \<le> unat (b_size b) then
        (if k \<in> fst ` set (b_list b) then Some (True, b\<lparr>b_list := erase_first k (b_list b)\<rparr>)
         else Some (False, b))
      else None)"

definition Bucket_Insert :: "('k, 'v) Bucket \<Rightarrow> 'k \<Rightarrow> 'v \<Rightarrow> bool \<times> ('k, 'v) Bucket" where
  "Bucket_Insert b k v =
     (if IsOverflow b then (False, b)
      else if k \<in> fst ` set (b_list b) then (True, b\<lparr>b_list := assign_first k v (b_list b)\<rparr>)
      else if IsFull b then (False, b)
      else (True, b\<lparr>b_list := b_list b @ [(k, v)]\<rparr>))"

text \<open>
  The table. A \<open>std::shared_ptr<Bucket>\<close> is an index into \<open>buckets\<close>, the store of the
  buckets made so far: \<open>std::make_shared\<close> appends to the store, and two directory slots
  that hold the same index share one bucket.
\<close>

record ('k, 'v) ExtendibleHashTable =
  global_depth :: nat
  bucket_size :: size_t
  num_buckets :: int
  dir :: "nat list"
  buckets :: "('k, 'v) Bucket list"

definition ExtendibleHashTable_init :: "size_t \<Rightarrow> ('k, 'v) ExtendibleHashTable" where
  "ExtendibleHashTable_init sz =
     \<lparr>global_depth = 0, bucket_size = sz, num_buckets = 1,
      dir = [0], buckets = [Bucket_init sz 0]\<rparr>"

text \<open>
  \<open>IndexOf\<close>, for the hash function \<open>h\<close> that stands for \<open>std::hash<K>\<close>, and
  \<open>PairIndex\<close>.
\<close>

definition IndexOf :: "('k \<Rightarrow> nat) \<Rightarrow> ('k, 'v) ExtendibleHashTable \<Rightarrow> 'k \<Rightarrow> nat" where
  "IndexOf h t k = h k AND (push_bit (global_depth t) 1 - 1)"

definition PairIndex :: "nat \<Rightarrow> nat \<Rightarrow> nat" where
  "PairIndex bucket_no local_depth = bucket_no XOR push_bit (local_depth - 1) 1"

definition GetGlobalDepth :: "('k, 'v) ExtendibleHashTable \<Rightarrow> nat" where
  "GetGlobalDepth t = global_depth t"

definition GetNumBuckets :: "('k, 'v) ExtendibleHashTable \<Rightarrow> int" where
  "GetNumBuckets t = num_buckets t"

text \<open>The bucket behind directory slot \<open>i\<close>; \<open>None\<close> when \<open>i\<close> is out of range.\<close>

definition bucket_at :: "('k, 'v) ExtendibleHashTable \<Rightarrow> nat \<Rightarrow> ('k, 'v) Bucket option" where
  "bucket_at t i =
     (if i < length (dir t) \<and> dir t ! i < length (buckets t) then Some (buckets t ! (dir t ! i))
      else None)"

definition GetLocalDepth :: "('k, 'v) ExtendibleHashTable \<Rightarrow> nat \<Rightarrow> nat option" where
  "GetLocalDepth t dir_index = map_option GetDepth (bucket_at t dir_index)"

definition HT_Find :: "('k \<Rightarrow> nat) \<Rightarrow> ('k, 'v) ExtendibleHashTable \<Rightarrow> 'k \<Rightarrow> 'v option option" where
  "HT_Find h t k =
     (case bucket_at t (IndexOf h t k) of
        None \<Rightarrow> None
      | Some bucket \<Rightarrow> Bucket_Find bucket k)"

definition HT_Remove ::
  "('k \<Rightarrow> nat) \<Rightarrow> ('k, 'v) ExtendibleHashTable \<Rightarrow> 'k \<Rightarrow> (bool \<times> ('k, 'v) ExtendibleHashTable) option"
where
  "HT_Remove h t k =
     (case bucket_at t (IndexOf h t k) of
        None \<Rightarrow> None
      | Some bucket \<Rightarrow>
          (case Bucket_Remove bucket k of
             None \<Rightarrow> None
           | Some (found, bucket1) \<Rightarrow>
               Some (found, t\<lparr>buckets := (buckets t)[dir t ! IndexOf h t k := bucket1]\<rparr>)))"

text \<open>
  The directory doubles: \<open>for (int i = 0; i < 1 << global_depth_; i++)
  dir_.push_back(dir_[i])\<close>, from \<open>i\<close> on, with \<open>n = 1 << global_depth_\<close>.
\<close>

function double_dir :: "nat list \<Rightarrow> nat \<Rightarrow> nat \<Rightarrow> nat list option" where
  "double_dir d i n =
     (if i < n then (if i < length d then double_dir (d @ [d ! i]) (i + 1) n else None)
      else Some d)"
  by pat_completeness auto
termination
  by (relation "measure (\<lambda>(d, i, n). n - i)") auto

text \<open>
  The two loops that make every slot at a distance of a multiple of \<open>1 << local_depth\<close>
  from \<open>pair_index\<close> share the new bucket: downwards from \<open>i\<close> while \<open>i >= 0\<close>, and
  upwards from \<open>i\<close> while \<open>i < dir_size\<close>.
\<close>

function rewire_down :: "nat list \<Rightarrow> nat \<Rightarrow> nat \<Rightarrow> int \<Rightarrow> nat list option" where
  "rewire_down d new local_depth i =
     (if 0 \<le> i then
        (if nat i < length d then rewire_down (d[nat i := new]) new local_depth (i - 2 ^ local_depth)
         else None)
      else Some d)"
  by pat_completeness auto
termination
  by (relation "measure (\<lambda>(d, new, local_depth, i). nat (i + 1))") auto

function rewire_up :: "nat list \<Rightarrow> nat \<Rightarrow> nat \<Rightarrow> nat \<Rightarrow> nat \<Rightarrow> nat list option" where
  "rewire_up d new local_depth dir_size i =
     (if i < dir_size then
        (if i < length d then rewire_up (d[i := new]) new local_depth dir_size (i + 2 ^ local_depth)
         else None)
      else Some d)"
  by pat_completeness auto
termination
proof (relation "measure (\<lambda>(d, new, local_depth, dir_size, i). dir_size - i)")
  fix d :: "nat list" and new local_depth dir_size i :: nat
  assume "i < dir_size"
  moreover have "(0::nat) < 2 ^ local_depth"
    by simp
  ultimately show "((d[i := new], new, local_depth, dir_size, i + 2 ^ local_depth),
      (d, new, local_depth, dir_size, i)) \<in> measure (\<lambda>(d, new, local_depth, dir_size, i). dir_size - i)"
    by (simp add: diff_less_mono2)
qed simp

declare double_dir.simps [simp del] rewire_down.simps [simp del] rewire_up.simps [simp del]

text \<open>
  The entries of the split bucket go back into the table, each into the bucket its key
  now indexes; a failed \<open>Bucket::Insert\<close> is logged and the entry dropped.
\<close>

fun reinsert ::
  "('k \<Rightarrow> nat) \<Rightarrow> ('k, 'v) ExtendibleHashTable \<Rightarrow> ('k \<times> 'v) list \<Rightarrow> ('k, 'v) ExtendibleHashTable option"
where
  "reinsert h t [] = Some t"
| "reinsert h t (x # xs) =
     (case bucket_at t (IndexOf h t (fst x)) of
        None \<Rightarrow> None
      | Some bucket \<Rightarrow>
          reinsert h
            (t\<lparr>buckets := (buckets t)[dir t ! IndexOf h t (fst x) :=
                  snd (Bucket_Insert bucket (fst x) (snd x))]\<rparr>) xs)"

text \<open>
  The body of \<open>if (!success)\<close> in \<open>Insert\<close>, for the bucket behind slot \<open>bucket_no\<close>, in
  three steps. First the bucket's depth goes up by one and, when it is now above the
  global depth, the directory doubles. The source shifts the \<open>int\<close> constant 1 by the
  global depth; a directory of \<open>2^31\<close> slots is beyond that, so the directory does not
  double at depth 30.
\<close>

definition grow_dir :: "('k, 'v) ExtendibleHashTable \<Rightarrow> nat \<Rightarrow> ('k, 'v) ExtendibleHashTable option" where
  "grow_dir t local_depth =
     (if local_depth > global_depth t then
        (if 30 \<le> global_depth t then None
         else
           map_option (\<lambda>d. t\<lparr>global_depth := global_depth t + 1, dir := d\<rparr>)
             (double_dir (dir t) 0 (2 ^ global_depth t)))
      else Some t)"

text \<open>
  Then a new bucket is made for slot \<open>pair_index\<close>, the old bucket (at index \<open>a\<close> of the
  store) is emptied, the slots that belong to the new bucket are rewired, and the entries
  are put back.
\<close>

definition install_pair ::
  "('k \<Rightarrow> nat) \<Rightarrow> ('k, 'v) ExtendibleHashTable \<Rightarrow> nat \<Rightarrow> nat \<Rightarrow> nat \<Rightarrow>
   ('k, 'v) ExtendibleHashTable option"
where
  "install_pair h t a bucket_no local_depth =
     (let pair_index = PairIndex bucket_no local_depth;
          new = length (buckets t)
      in
        if \<not> pair_index < length (dir t) then None
        else
          (let d1 = (dir t)[pair_index := new];
               itemsToInsert = GetCopiedItems (buckets t ! a);
               bs = (buckets t)[a := ClearItems (buckets t ! a)] @
                    [Bucket_init (bucket_size t) local_depth]
           in
             (case rewire_down d1 new local_depth (int pair_index - 2 ^ local_depth) of
                None \<Rightarrow> None
              | Some d2 \<Rightarrow>
                  (case rewire_up d2 new local_depth (2 ^ global_depth t)
                          (pair_index + 2 ^ local_depth) of
                     None \<Rightarrow> None
                   | Some d3 \<Rightarrow> reinsert h (t\<lparr>dir := d3, buckets := bs\<rparr>) itemsToInsert))))"

definition split_bucket ::
  "('k \<Rightarrow> nat) \<Rightarrow> ('k, 'v) ExtendibleHashTable \<Rightarrow> nat \<Rightarrow> ('k, 'v) ExtendibleHashTable option"
where
  "split_bucket h t bucket_no =
     (case bucket_at t bucket_no of
        None \<Rightarrow> None
      | Some bucket0 \<Rightarrow>
          (let bucket = IncrementDepth bucket0;
               local_depth = GetDepth bucket;
               t1 = t\<lparr>buckets := (buckets t)[dir t ! bucket_no := bucket]\<rparr>
           in
             (case grow_dir t1 local_depth of
                None \<Rightarrow> None
              | Some t2 \<Rightarrow> install_pair h t2 (dir t ! bucket_no) bucket_no local_depth)))"

text \<open>
  \<open>Insert\<close>: the loop \<open>while (!complete)\<close>. It need not end (more keys with one hash
  value than a bucket holds are split for ever), so the result is \<open>None\<close> as well when the
  loop does not end.
\<close>

partial_function (option) HT_Insert ::
  "('k \<Rightarrow> nat) \<Rightarrow> ('k, 'v) ExtendibleHashTable \<Rightarrow> 'k \<Rightarrow> 'v \<Rightarrow> ('k, 'v) ExtendibleHashTable option"
where
  "HT_Insert h t k v =
     (case bucket_at t (IndexOf h t k) of
        None \<Rightarrow> None
      | Some bucket \<Rightarrow>
          if fst (Bucket_Insert bucket k v) then
            Some (t\<lparr>buckets := (buckets t)[dir t ! IndexOf h t k := snd (Bucket_Insert bucket k v)]\<rparr>)
          else
            (case split_bucket h t (IndexOf h t k) of
               None \<Rightarrow> None
             | Some t1 \<Rightarrow> HT_Insert h t1 k v))"

declare HT_Insert.simps [code]

section \<open>The buffer pool manager (buffer\_pool\_manager\_instance.cpp)\<close>

text \<open>
  Modelled from the spec: the sentinels and the page size are defined in config.h, and the
  class \<open>Page\<close> in page.h, neither of which is under src/. "\<open>page_id = -1\<close> and
  \<open>frame_id = -1\<close> are sentinels"; a frame is "a fixed-size byte buffer (page-size,
  typically 4096) together with metadata: the persistent page id it currently holds, a pin
  count, a dirty flag"; a new frame holds no page, and \<open>ResetMemory\<close> zeroes the buffer.
\<close>

definition INVALID_PAGE_ID :: int where
  "INVALID_PAGE_ID = - 1"

definition INVALID_FRAME_ID :: int where
  "INVALID_FRAME_ID = - 1"

definition BUSTUB_PAGE_SIZE :: nat where
  "BUSTUB_PAGE_SIZE = 4096"

type_synonym page_bytes = "8 word list"

record Page =
  page_id :: int
  pin_count :: int
  is_dirty :: bool
  data :: page_bytes

definition zero_page :: page_bytes where
  "zero_page = replicate BUSTUB_PAGE_SIZE 0"

definition Page_init :: Page where
  "Page_init = \<lparr>page_id = INVALID_PAGE_ID, pin_count = 0, is_dirty = False, data = zero_page\<rparr>"

definition ResetMemory :: "Page \<Rightarrow> Page" where
  "ResetMemory pg = pg\<lparr>data := zero_page\<rparr>"

text \<open>
  Modelled from the spec: the disk manager is an external collaborator. \<open>WritePage\<close>
  "persists the buffer as the new contents of \<open>page_id\<close>", \<open>ReadPage\<close> "fills the buffer
  with the page's persisted contents"; its state is the contents of every page.
\<close>

type_synonym disk = "int \<Rightarrow> page_bytes"

definition WritePage :: "disk \<Rightarrow> int \<Rightarrow> page_bytes \<Rightarrow> disk" where
  "WritePage d p buf = d(p := buf)"

definition ReadPage :: "disk \<Rightarrow> int \<Rightarrow> page_bytes" where
  "ReadPage d p = d p"

text \<open>
  The pool. \<open>disk_pages\<close> is the state of the disk manager behind \<open>disk_manager_\<close>, and
  \<open>deallocated\<close> the page ids \<open>DeallocatePage\<close> was called with, in order (modelled from
  the spec: \<open>DeallocatePage\<close> is declared in buffer\_pool\_manager\_instance.h, which is not
  under src/, as are the members \<open>next_page_id_\<close>, starting at 0, and \<open>bucket_size_\<close>).
\<close>

record BufferPoolManagerInstance =
  pool_size :: size_t
  pages :: "Page list"
  page_table :: "(int, int) ExtendibleHashTable"
  replacer :: LRUKReplacer
  free_list :: "int list"
  next_page_id :: int
  disk_pages :: disk
  deallocated :: "int list"

definition BufferPoolManagerInstance_init ::
  "size_t \<Rightarrow> size_t \<Rightarrow> size_t \<Rightarrow> disk \<Rightarrow> BufferPoolManagerInstance"
where
  "BufferPoolManagerInstance_init pool_sz bucket_sz replacer_k d =
     \<lparr>pool_size = pool_sz,
      pages = replicate (unat pool_sz) Page_init,
      page_table = ExtendibleHashTable_init bucket_sz,
      replacer = LRUKReplacer_init pool_sz replacer_k,
      free_list = map int [0 ..< unat pool_sz],
      next_page_id = 0,
      disk_pages = d,
      deallocated = []\<rparr>"

text \<open>\<open>pages_[frame_id]\<close> is an element of the array.\<close>

definition frame_ok :: "BufferPoolManagerInstance \<Rightarrow> int \<Rightarrow> bool" where
  "frame_ok s f \<longleftrightarrow> 0 \<le> f \<and> nat f < length (pages s)"

text \<open>
  \<open>AllocatePage\<close> is \<open>return next_page_id_++\<close>. A page id is a 32-bit signed integer and
  the counter an atomic of that type, so that the increment wraps: \<open>next_id\<close> is the value
  of the counter after \<open>++\<close>, and after \<open>2^31 - 1\<close> comes \<open>- 2^31\<close>.
\<close>

definition next_id :: "int \<Rightarrow> int" where
  "next_id p = (if p = 2 ^ 31 - 1 then - (2 ^ 31) else p + 1)"

definition AllocatePage :: "BufferPoolManagerInstance \<Rightarrow> int \<times> BufferPoolManagerInstance" where
  "AllocatePage s = (next_page_id s, s\<lparr>next_page_id := next_id (next_page_id s)\<rparr>)"

definition DeallocatePage :: "BufferPoolManagerInstance \<Rightarrow> int \<Rightarrow> BufferPoolManagerInstance" where
  "DeallocatePage s p = s\<lparr>deallocated := deallocated s @ [p]\<rparr>"

definition GetVictimPage ::
  "BufferPoolManagerInstance \<Rightarrow> (int \<times> BufferPoolManagerInstance) option"
where
  "GetVictimPage s =
     (case free_list s of
        f # rest \<Rightarrow>
          if frame_ok s f \<and> page_id (pages s ! nat f) = INVALID_PAGE_ID
          then Some (f, s\<lparr>free_list := rest\<rparr>)
          else None
      | [] \<Rightarrow>
          (case Evict (replacer s) INVALID_FRAME_ID of
             None \<Rightarrow> None
           | Some (evicted, f, r) \<Rightarrow> Some (f, s\<lparr>replacer := r\<rparr>)))"

text \<open>\<open>ResetPage(page)\<close> for \<open>page = &pages_[f]\<close>.\<close>

definition ResetPage ::
  "(int \<Rightarrow> nat) \<Rightarrow> BufferPoolManagerInstance \<Rightarrow> int \<Rightarrow> (bool \<times> BufferPoolManagerInstance) option"
where
  "ResetPage h s f =
     (let pg = pages s ! nat f
      in
        if page_id pg = INVALID_PAGE_ID then Some (True, s)
        else
          (case HT_Remove h (page_table s) (page_id pg) of
             None \<Rightarrow> None
           | Some (removed, pt) \<Rightarrow>
               if removed then
                 Some (True,
                   s\<lparr>page_table := pt,
                     disk_pages :=
                       (if is_dirty pg then WritePage (disk_pages s) (page_id pg) (data pg)
                        else disk_pages s),
                     pages := (pages s)[nat f :=
                       ResetMemory (pg\<lparr>is_dirty := False, page_id := INVALID_PAGE_ID,
                                       pin_count := 0\<rparr>)]\<rparr>)
               else Some (False, s\<lparr>page_table := pt\<rparr>)))"

definition InitPage ::
  "(int \<Rightarrow> nat) \<Rightarrow> BufferPoolManagerInstance \<Rightarrow> int \<Rightarrow> int \<Rightarrow> BufferPoolManagerInstance option"
where
  "InitPage h s f p =
     (let pg = pages s ! nat f
      in
        if page_id pg = INVALID_PAGE_ID \<and> \<not> is_dirty pg \<and> pin_count pg = 0 then
          map_option
            (\<lambda>pt. s\<lparr>pages := (pages s)[nat f := pg\<lparr>page_id := p, pin_count := 1\<rparr>],
                    page_table := pt\<rparr>)
            (HT_Insert h (page_table s) p f)
        else None)"

definition UpdateFrameInfo ::
  "BufferPoolManagerInstance \<Rightarrow> int \<Rightarrow> int \<Rightarrow> BufferPoolManagerInstance option"
where
  "UpdateFrameInfo s f pin =
     (case RecordAccess (replacer s) f of
        None \<Rightarrow> None
      | Some r1 \<Rightarrow>
          if pin = 1 then map_option (\<lambda>r2. s\<lparr>replacer := r2\<rparr>) (SetEvictable r1 f False)
          else Some (s\<lparr>replacer := r1\<rparr>))"

definition UnpinFrame :: "BufferPoolManagerInstance \<Rightarrow> int \<Rightarrow> BufferPoolManagerInstance option" where
  "UnpinFrame s f =
     (let pg = pages s ! nat f
      in
        if \<not> 0 < pin_count pg then None
        else
          (let s1 = s\<lparr>pages := (pages s)[nat f := pg\<lparr>pin_count := pin_count pg - 1\<rparr>]\<rparr>
           in
             if pin_count pg - 1 = 0 then
               map_option (\<lambda>r. s1\<lparr>replacer := r\<rparr>) (SetEvictable (replacer s1) f True)
             else Some s1))"

text \<open>
  \<open>NewPgImp\<close> returns \<open>None\<close> for the null pointer and \<open>Some (p, f)\<close> for the page id
  stored in \<open>*page_id\<close> and the frame \<open>&pages_[f]\<close>.
\<close>

definition NewPgImp ::
  "(int \<Rightarrow> nat) \<Rightarrow> BufferPoolManagerInstance \<Rightarrow>
   ((int \<times> int) option \<times> BufferPoolManagerInstance) option"
where
  "NewPgImp h s =
     do {
       (f, s1) \<leftarrow> GetVictimPage s;
       if f = INVALID_FRAME_ID then Some (None, s1)
       else if \<not> frame_ok s1 f then None
       else
         do {
           let (p, s2) = AllocatePage s1;
           (reset, s3) \<leftarrow> ResetPage h s2 f;
           s4 \<leftarrow> InitPage h s3 f p;
           s5 \<leftarrow> UpdateFrameInfo s4 f (pin_count (pages s4 ! nat f));
           Some (Some (p, f), s5)
         }
     }"

text \<open>
  \<open>FetchPgImp\<close> returns the frame of the page. \<open>pin_count_\<close> is an \<open>int\<close>: one more than
  \<open>2^31 - 1\<close> overflows.
\<close>

definition FetchPgImp ::
  "(int \<Rightarrow> nat) \<Rightarrow> BufferPoolManagerInstance \<Rightarrow> int \<Rightarrow>
   (int option \<times> BufferPoolManagerInstance) option"
where
  "FetchPgImp h s p =
     do {
       found \<leftarrow> HT_Find h (page_table s) p;
       case found of
         Some f \<Rightarrow>
           if \<not> frame_ok s f \<or> pin_count (pages s ! nat f) = 2 ^ 31 - 1 then None
           else
             do {
               let pg = pages s ! nat f;
               let s1 = s\<lparr>pages := (pages s)[nat f := pg\<lparr>pin_count := pin_count pg + 1\<rparr>]\<rparr>;
               s2 \<leftarrow> UpdateFrameInfo s1 f (pin_count pg + 1);
               Some (Some f, s2)
             }
       | None \<Rightarrow>
           do {
             (f, s1) \<leftarrow> GetVictimPage s;
             if f = INVALID_FRAME_ID then Some (None, s1)
             else if \<not> frame_ok s1 f then None
             else
               do {
                 (reset, s2) \<leftarrow> ResetPage h s1 f;
                 s3 \<leftarrow> InitPage h s2 f p;
                 let s4 = s3\<lparr>pages := (pages s3)[nat f :=
                            (pages s3 ! nat f)\<lparr>data := ReadPage (disk_pages s3) p\<rparr>]\<rparr>;
                 s5 \<leftarrow> UpdateFrameInfo s4 f (pin_count (pages s4 ! nat f));
                 Some (Some f, s5)
               }
           }
     }"

definition UnpinPgImp ::
  "(int \<Rightarrow> nat) \<Rightarrow> BufferPoolManagerInstance \<Rightarrow> int \<Rightarrow> bool \<Rightarrow>
   (bool \<times> BufferPoolManagerInstance) option"
where
  "UnpinPgImp h s p dirty =
     do {
       found \<leftarrow> HT_Find h (page_table s) p;
       case found of
         None \<Rightarrow> Some (False, s)
       | Some f \<Rightarrow>
           if \<not> frame_ok s f \<or> page_id (pages s ! nat f) \<noteq> p then None
           else if pin_count (pages s ! nat f) = 0 then Some (False, s)
           else
             do {
               s1 \<leftarrow> UnpinFrame s f;
               Some (True,
                 if dirty then
                   s1\<lparr>pages := (pages s1)[nat f := (pages s1 ! nat f)\<lparr>is_dirty := True\<rparr>]\<rparr>
                 else s1)
             }
     }"

definition FlushPgImp ::
  "(int \<Rightarrow> nat) \<Rightarrow> BufferPoolManagerInstance \<Rightarrow> int \<Rightarrow>
   (bool \<times> BufferPoolManagerInstance) option"
where
  "FlushPgImp h s p =
     (if p = INVALID_PAGE_ID then Some (False, s)
      else
        do {
          found \<leftarrow> HT_Find h (page_table s) p;
          case found of
            None \<Rightarrow> Some (False, s)
          | Some f \<Rightarrow>
              if \<not> frame_ok s f \<or> page_id (pages s ! nat f) \<noteq> p then None
              else
                Some (True,
                  s\<lparr>disk_pages := WritePage (disk_pages s) p (data (pages s ! nat f)),
                    pages := (pages s)[nat f := (pages s ! nat f)\<lparr>is_dirty := False\<rparr>]\<rparr>)
        })"

text \<open>The loop of \<open>FlushAllPgsImp\<close> over the frames \<open>0, ..., pool_size_ - 1\<close>.\<close>

fun flush_frames :: "BufferPoolManagerInstance \<Rightarrow> nat list \<Rightarrow> BufferPoolManagerInstance option" where
  "flush_frames s [] = Some s"
| "flush_frames s (i # rest) =
     (if \<not> i < length (pages s) then None
      else if page_id (pages s ! i) \<noteq> INVALID_PAGE_ID then
        flush_frames
          (s\<lparr>disk_pages := WritePage (disk_pages s) (page_id (pages s ! i)) (data (pages s ! i)),
             pages := (pages s)[i := (pages s ! i)\<lparr>is_dirty := False\<rparr>]\<rparr>) rest
      else flush_frames s rest)"

definition FlushAllPgsImp :: "BufferPoolManagerInstance \<Rightarrow> BufferPoolManagerInstance option" where
  "FlushAllPgsImp s = flush_frames s [0 ..< unat (pool_size s)]"

definition DeletePgImp ::
  "(int \<Rightarrow> nat) \<Rightarrow> BufferPoolManagerInstance \<Rightarrow> int \<Rightarrow>
   (bool \<times> BufferPoolManagerInstance) option"
where
  "DeletePgImp h s p =
     do {
       found \<leftarrow> HT_Find h (page_table s) p;
       case found of
         None \<Rightarrow> Some (True, s)
       | Some f \<Rightarrow>
           if \<not> frame_ok s f then None
           else if 0 < pin_count (pages s ! nat f) then Some (False, s)
           else
             do {
               (reset, s1) \<leftarrow> ResetPage h s f;
               if reset then
                 do {
                   r \<leftarrow> Remove (replacer s1) f;
                   Some (True, DeallocatePage (s1\<lparr>replacer := r, free_list := free_list s1 @ [f]\<rparr>) p)
                 }
               else Some (False, s1)
             }
     }"

text \<open>Sequences of calls of the six public operations.\<close>

datatype bpm_op =
  NewPage | FetchPage int | UnpinPage int bool | FlushPage int | FlushAllPages | DeletePage int

fun bpm_step ::
  "(int \<Rightarrow> nat) \<Rightarrow> BufferPoolManagerInstance \<Rightarrow> bpm_op \<Rightarrow> BufferPoolManagerInstance option"
where
  "bpm_step h s NewPage = map_option snd (NewPgImp h s)"
| "bpm_step h s (FetchPage p) = map_option snd (FetchPgImp h s p)"
| "bpm_step h s (UnpinPage p dirty) = map_option snd (UnpinPgImp h s p dirty)"
| "bpm_step h s (FlushPage p) = map_option snd (FlushPgImp h s p)"
| "bpm_step h s FlushAllPages = FlushAllPgsImp s"
| "bpm_step h s (DeletePage p) = map_option snd (DeletePgImp h s p)"

fun bpm_run ::
  "(int \<Rightarrow> nat) \<Rightarrow> BufferPoolManagerInstance \<Rightarrow> bpm_op list \<Rightarrow> BufferPoolManagerInstance option"
where
  "bpm_run h s [] = Some s"
| "bpm_run h s (x # xs) = (case bpm_step h s x of None \<Rightarrow> None | Some s1 \<Rightarrow> bpm_run h s1 xs)"

text \<open>
  The pin counts and the replacer: no pin count is negative, and the replacer has no
  evictable node for a frame with a positive pin count.
\<close>

definition pins_ok :: "Page list \<Rightarrow> LRUKReplacer \<Rightarrow> bool" where
  "pins_ok ps r \<longleftrightarrow>
     lruk_wf r \<and>
     (\<forall>i < length ps. 0 \<le> pin_count (ps ! i) \<and>
        (0 < pin_count (ps ! i) \<longrightarrow> \<not> is_evictable r (int i)))"

definition pins_inv :: "BufferPoolManagerInstance \<Rightarrow> bool" where
  "pins_inv s \<longleftrightarrow> pins_ok (pages s) (replacer s)"

section \<open>Runs of hash table operations\<close>

text \<open>
  The public operations of the hash table, and a run of them; a run stops with \<open>None\<close>
  at the first operation that does not return.
\<close>

datatype ('k, 'v) ht_op = Op_Insert 'k 'v | Op_Remove 'k | Op_Find 'k

fun ht_step ::
  "('k \<Rightarrow> nat) \<Rightarrow> ('k, 'v) ExtendibleHashTable \<Rightarrow> ('k, 'v) ht_op \<Rightarrow> ('k, 'v) ExtendibleHashTable option"
where
  "ht_step h t (Op_Insert k v) = HT_Insert h t k v"
| "ht_step h t (Op_Remove k) = map_option snd (HT_Remove h t k)"
| "ht_step h t (Op_Find k) = map_option (\<lambda>r. t) (HT_Find h t k)"

fun ht_run ::
  "('k \<Rightarrow> nat) \<Rightarrow> ('k, 'v) ExtendibleHashTable \<Rightarrow> ('k, 'v) ht_op list \<Rightarrow> ('k, 'v) ExtendibleHashTable option"
where
  "ht_run h t [] = Some t"
| "ht_run h t (x # xs) = (case ht_step h t x of None \<Rightarrow> None | Some t1 \<Rightarrow> ht_run h t1 xs)"

text \<open>
  The shape of a directory \<open>d\<close> of global depth \<open>g\<close>, for the local depths \<open>dep\<close> of the
  buckets: there are \<open>2^g\<close> slots, no bucket is deeper than the directory, and two slots
  share a bucket exactly when they agree on the low bits the bucket's depth counts.
\<close>

definition dir_ok :: "nat \<Rightarrow> nat list \<Rightarrow> (nat \<Rightarrow> nat) \<Rightarrow> bool" where
  "dir_ok g d dep \<longleftrightarrow>
     length d = 2 ^ g \<and>
     (\<forall>i \<in> {..<length d}. dep (d ! i) \<le> g \<and>
        (\<forall>j \<in> {..<length d}. (d ! j = d ! i) = (j mod 2 ^ dep (d ! i) = i mod 2 ^ dep (d ! i))))"

text \<open>
  The structural invariant of the table: the directory has the shape \<open>dir_ok\<close> for the
  depths of the buckets in the store, every slot holds a bucket of the store and every
  bucket of the store is in some slot. The global depth stays within the range the
  shifts of the \<open>int\<close> constant 1 allow.
\<close>

definition ht_struct :: "('k, 'v) ExtendibleHashTable \<Rightarrow> bool" where
  "ht_struct t \<longleftrightarrow>
     global_depth t \<le> 30 \<and>
     dir_ok (global_depth t) (dir t) (\<lambda>a. b_depth (buckets t ! a)) \<and>
     set (dir t) = {..<length (buckets t)}"

chapter \<open>Properties\<close>

section \<open>The legacy LRU replacer\<close>

lemma lru_inv_init: "lru_inv (LRUReplacer_init n)"
  by (simp add: lru_inv_def LRUReplacer_init_def)

lemma unat_dec: "w \<noteq> 0 \<Longrightarrow> unat (w - 1 :: size_t) = unat w - 1"
  by (simp add: unat_minus_one)

lemma unat_inc: "w < (v :: size_t) \<Longrightarrow> unat (w + 1) = unat w + 1"
  by (metis (no_types, lifting) add.commute add_0 inc_i inc_le
    unat_plus_simple unsigned_0 unsigned_1 word_gt_0)

lemma dec_le: "w \<noteq> 0 \<Longrightarrow> w \<le> v \<Longrightarrow> w - 1 \<le> (v :: size_t)"
  by (meson leD less_eq_dec_iff nle_le)

lemma lru_inv_Unpin:
  assumes "lru_inv r"
  shows "lru_inv (Unpin r f)"
proof (cases "f \<in> frames r \<or> cur_size r = page_size r")
  case True
  with assms show ?thesis
    by (auto simp: Unpin_def)
next
  case False
  with assms have lt: "cur_size r < page_size r"
    by (simp add: lru_inv_def order_le_neq_trans)
  from assms False unat_inc [OF lt] inc_le [OF lt] show ?thesis
    by (simp add: lru_inv_def Unpin_def)
qed

lemma lru_inv_nonempty: "lru_inv r \<Longrightarrow> (cur_size r = 0) = (lru_nodes r = [])"
  by (metis length_0_conv lru_inv_def unat_eq_0)

lemma lru_inv_Victim:
  assumes "lru_inv r" and "Victim r out = Some (b, f, r')"
  shows "lru_inv r'"
proof (cases "lru_nodes r = []")
  case True
  with assms show ?thesis
    by (simp add: Victim_def lru_inv_nonempty)
next
  case False
  then obtain xs x where xs: "lru_nodes r = xs @ [x]"
    by (metis append_butlast_last_id)
  from assms False have nz: "cur_size r \<noteq> 0"
    by (simp add: lru_inv_nonempty)
  have le: "cur_size r - 1 \<le> page_size r"
    using assms(1) nz by (simp add: lru_inv_def dec_le)
  from assms xs nz le show ?thesis
    by (auto simp: Victim_def lru_inv_def Let_def unat_dec)
qed

text \<open>
  C10. With at least one frame in the replacer, \<open>Victim\<close> removes the tail of the list
  (the frame unpinned longest ago: \<open>Unpin\<close> adds at the head and never changes the tail
  of a non-empty list), stores its id in the out-parameter, takes one from \<open>Size()\<close>, and
  returns false; on the empty replacer it returns false as well and changes nothing.
\<close>

theorem Victim_returns_false_on_success:
  assumes "lru_inv r"
  shows "(lru_nodes r \<noteq> [] \<longrightarrow>
            Victim r out =
              Some (False, last (lru_nodes r),
                r\<lparr>lru_nodes := butlast (lru_nodes r),
                  frames := frames r - {last (lru_nodes r)},
                  cur_size := cur_size r - 1\<rparr>) \<and>
            LRU_Size r \<noteq> 0 \<and>
            unat (LRU_Size (r\<lparr>lru_nodes := butlast (lru_nodes r),
                  frames := frames r - {last (lru_nodes r)},
                  cur_size := cur_size r - 1\<rparr>)) = unat (LRU_Size r) - 1 \<and>
            last (lru_nodes r) \<notin> set (butlast (lru_nodes r)) \<and>
            last (lru_nodes (Unpin r f)) = last (lru_nodes r)) \<and>
         (lru_nodes r = [] \<longrightarrow> Victim r out = Some (False, out, r))"
proof (cases "lru_nodes r = []")
  case True
  with assms show ?thesis
    by (simp add: Victim_def lru_inv_nonempty)
next
  case False
  with assms have nz: "cur_size r \<noteq> 0"
    by (simp add: lru_inv_nonempty)
  from False obtain xs x where xs: "lru_nodes r = xs @ [x]"
    by (metis append_butlast_last_id)
  from assms xs have "x \<notin> set xs"
    by (simp add: lru_inv_def)
  with False nz xs show ?thesis
    by (simp add: Victim_def Let_def LRU_Size_def unat_dec Unpin_def)
qed

theorem Victim_returns_false_on_success_witness:
  "lru_inv (Unpin (Unpin (LRUReplacer_init 4) 7) 5) \<and>
   lru_nodes (Unpin (Unpin (LRUReplacer_init 4) 7) 5) = [5, 7] \<and>
   Victim (Unpin (Unpin (LRUReplacer_init 4) 7) 5) 0 =
     Some (False, 7, \<lparr>page_size = 4, cur_size = 1, lru_nodes = [5], frames = {5}\<rparr>) \<and>
   Victim (LRUReplacer_init 4) 3 = Some (False, 3, LRUReplacer_init 4)"
proof -
  have i: "lru_inv (Unpin (Unpin (LRUReplacer_init 4) 7) 5)"
    by (intro lru_inv_Unpin lru_inv_init)
  have l: "lru_nodes (Unpin (Unpin (LRUReplacer_init 4) 7) 5) = [5, 7]"
    by (simp add: Unpin_def LRUReplacer_init_def)
  have e: "lru_nodes (LRUReplacer_init 4) = []"
    by (simp add: LRUReplacer_init_def)
  show ?thesis
    using Victim_returns_false_on_success [OF i, of 0 9]
      Victim_returns_false_on_success [OF lru_inv_init, of 4 3] i l e
    by (auto simp: Unpin_def LRUReplacer_init_def)
qed

section \<open>The LRU-K replacer\<close>

lemma ids_unlink: "frame_id ` set (unlink f xs) = frame_id ` set xs - {f}"
  by (auto simp: unlink_def)

lemma map_unlink: "map frame_id (unlink f xs) = removeAll f (map frame_id xs)"
  by (induction xs) (auto simp: unlink_def)

lemma unlink_absent: "f \<notin> frame_id ` set xs \<Longrightarrow> unlink f xs = xs"
  by (induction xs) (auto simp: unlink_def)

lemma unlink_append: "unlink f (xs @ ys) = unlink f xs @ unlink f ys"
  by (simp add: unlink_def)

lemma distinct_unlink: "distinct (map frame_id xs) \<Longrightarrow> distinct (map frame_id (unlink f xs))"
  by (simp add: map_unlink distinct_removeAll)

lemma map_store_node: "map frame_id (store_node n xs) = map frame_id xs"
  by (induction xs) (auto simp: store_node_def)

lemma set_store_node_ids: "frame_id ` set (store_node n xs) = frame_id ` set xs"
  by (metis list.set_map map_store_node)

lemma store_node_absent: "frame_id n \<notin> frame_id ` set xs \<Longrightarrow> store_node n xs = xs"
  by (induction xs) (auto simp: store_node_def)

lemma length_store_node: "length (store_node n xs) = length xs"
  by (simp add: store_node_def)

lemma unlink_store_node: "unlink (frame_id n) (store_node n xs) = unlink (frame_id n) xs"
  by (induction xs) (auto simp: store_node_def unlink_def)

lemma store_node_append: "store_node n (xs @ ys) = store_node n xs @ store_node n ys"
  by (simp add: store_node_def)

lemma length_unlink_present:
  "distinct (map frame_id xs) \<Longrightarrow> f \<in> frame_id ` set xs \<Longrightarrow> Suc (length (unlink f xs)) = length xs"
  by (induction xs) (auto simp: unlink_def unlink_absent [unfolded unlink_def])

lemma node_of_Some: "node_of r f = Some n \<Longrightarrow> n \<in> set (history_list r @ buffer_list r) \<and> frame_id n = f"
  unfolding node_of_def by (metis (mono_tags, lifting) find_Some_iff nth_mem)

lemma node_of_None: "node_of r f = None \<longleftrightarrow> f \<notin> frame_id ` set (history_list r @ buffer_list r)"
  unfolding node_of_def by (auto simp: find_None_iff)

lemma unlink_Cons:
  "unlink f (n # xs) = (if frame_id n = f then unlink f xs else n # unlink f xs)"
  by (simp add: unlink_def)

lemma unlink_split:
  "distinct (map frame_id (xs @ n # ys)) \<Longrightarrow> unlink (frame_id n) (xs @ n # ys) = xs @ ys"
  by (simp add: unlink_append unlink_Cons unlink_absent)

lemma find_skip: "\<not> list_ex P ys \<Longrightarrow> P n \<Longrightarrow> find P (ys @ n # xs) = Some n"
  by (induction ys) auto

lemma find_rev_split:
  "\<not> list_ex P ys \<Longrightarrow> P n \<Longrightarrow> find P (rev ys @ n # rev xs) = Some n"
  by (rule find_skip) (simp_all add: list_ex_iff)

lemma find_rev_None: "find P (rev xs) = None \<longleftrightarrow> \<not> list_ex P xs"
  by (auto simp: find_None_iff list_ex_iff)

lemma find_rev_Some:
  "find P (rev xs) = Some n \<Longrightarrow> \<exists>ys zs. xs = ys @ n # zs \<and> P n \<and> \<not> list_ex P zs"
proof (induction xs rule: rev_induct)
  case Nil
  then show ?case by simp
next
  case (snoc x xs)
  show ?case
  proof (cases "P x")
    case True
    with snoc.prems have "n = x" by simp
    with True show ?thesis by (intro exI [of _ xs] exI [of _ "[]"]) simp
  next
    case False
    with snoc obtain ys zs where "xs = ys @ n # zs" "P n" "\<not> list_ex P zs" by auto
    with False show ?thesis by (intro exI [of _ ys] exI [of _ "zs @ [x]"]) simp
  qed
qed

lemma lruk_inv_init: "lruk_inv (LRUKReplacer_init n k)"
  by (simp add: lruk_inv_def LRUKReplacer_init_def)

lemma lruk_inv_curr_size_0:
  "lruk_inv r \<Longrightarrow> curr_size r = 0 \<longleftrightarrow> \<not> list_ex evictable (history_list r @ buffer_list r)"
proof -
  assume "lruk_inv r"
  then have "unat (curr_size r) = length (filter evictable (history_list r @ buffer_list r))"
    by (simp add: lruk_inv_def)
  then show ?thesis
    by (metis (no_types, lifting) filter_False filter_empty_conv length_0_conv list_ex_iff unat_eq_0)
qed

lemma Evict_history:
  assumes inv: "lruk_inv r"
    and h: "history_list r = xs @ n # ys" and e: "evictable n" and t: "\<not> list_ex evictable ys"
  shows "Evict r out =
           Some (True, frame_id n,
             r\<lparr>history_list := xs @ ys,
               history_frames := history_frames r - {frame_id n},
               history_frame_size := history_frame_size r - 1,
               curr_size := curr_size r - 1\<rparr>)"
proof -
  from inv h e have nz: "curr_size r \<noteq> 0"
    by (simp add: lruk_inv_curr_size_0)
  from h e t have g: "GetFirstEvictableNode r True = Some n"
    by (simp add: GetFirstEvictableNode_def find_rev_split)
  from inv h have d: "distinct (map frame_id (xs @ n # ys))"
    and b: "frame_id n \<notin> frame_id ` set (buffer_list r)"
    by (auto simp: lruk_inv_def)
  from d have u: "unlink (frame_id n) (history_list r) = xs @ ys"
    unfolding h by (rule unlink_split)
  from nz g u b show ?thesis
    by (simp add: Evict_def EvictNodeFromList_def Let_def unlink_absent)
qed

lemma Evict_cache:
  assumes inv: "lruk_inv r" and nh: "\<not> list_ex evictable (history_list r)"
    and h: "buffer_list r = xs @ n # ys" and e: "evictable n" and t: "\<not> list_ex evictable ys"
  shows "Evict r out =
           Some (True, frame_id n,
             r\<lparr>buffer_list := xs @ ys,
               buffer_frames := buffer_frames r - {frame_id n},
               buffer_frame_size := buffer_frame_size r - 1,
               curr_size := curr_size r - 1\<rparr>)"
proof -
  from inv h e have nz: "curr_size r \<noteq> 0"
    by (simp add: lruk_inv_curr_size_0)
  from nh have g0: "GetFirstEvictableNode r True = None"
    by (simp add: GetFirstEvictableNode_def find_rev_None)
  from h e t have g: "GetFirstEvictableNode r False = Some n"
    by (simp add: GetFirstEvictableNode_def find_rev_split)
  from inv h have d: "distinct (map frame_id (xs @ n # ys))"
    and b: "frame_id n \<notin> frame_id ` set (history_list r)"
    by (auto simp: lruk_inv_def)
  from d have u: "unlink (frame_id n) (buffer_list r) = xs @ ys"
    unfolding h by (rule unlink_split)
  from nz g0 g u b show ?thesis
    by (simp add: Evict_def EvictNodeFromList_def Let_def unlink_absent)
qed

lemma Evict_none:
  assumes inv: "lruk_inv r" and n: "\<not> list_ex evictable (history_list r @ buffer_list r)"
  shows "Evict r out = Some (False, out, r)"
  using assms by (simp add: Evict_def lruk_inv_curr_size_0)


lemma unat_inc_nat: "unat (w :: size_t) < unat (v :: size_t) \<Longrightarrow> unat (w + 1) = Suc (unat w)"
  using unat_inc [of w v] by (simp add: word_less_nat_alt)

lemma unat_add_le:
  assumes "unat (a :: size_t) + unat (b :: size_t) \<le> unat (c :: size_t)"
  shows "unat (a + b) = unat a + unat b"
proof -
  have "unat c < 2 ^ LENGTH(64)"
    by (rule unsigned_less)
  with assms have "unat a + unat b < 2 ^ LENGTH(64)"
    by linarith
  then show ?thesis
    by (simp only: unat_add_lem)
qed

lemma word_succ_gt: "k \<le> c \<Longrightarrow> c + 1 \<noteq> 0 \<Longrightarrow> k < c + (1 :: size_t)"
  using less_eq_dec_iff by fastforce

lemma word_lt_succ: "c < k \<Longrightarrow> c + 1 \<noteq> k \<Longrightarrow> c + 1 < (k :: size_t)"
  by (simp add: inc_le order_less_le)

lemma word_lt_succ_nz: "c < k \<Longrightarrow> c + 1 \<noteq> (0 :: size_t)"
  by (metis (no_types, lifting) add.right_neutral add_diff_cancel_right'
    uminus_add_conv_diff word_order.extremum_strict)

lemma store_node_split:
  "distinct (map frame_id (xs @ n # ys)) \<Longrightarrow> frame_id m = frame_id n \<Longrightarrow>
   store_node m (xs @ n # ys) = xs @ m # ys"
  using store_node_absent [of m xs] store_node_absent [of m ys]
  by (simp add: store_node_append) (simp add: store_node_def)

lemma node_split:
  assumes "node_of r f = Some n"
  shows "frame_id n = f \<and>
         ((\<exists>xs ys. history_list r = xs @ n # ys) \<or> (\<exists>xs ys. buffer_list r = xs @ n # ys))"
proof -
  from assms have "n \<in> set (history_list r) \<or> n \<in> set (buffer_list r)" and "frame_id n = f"
    using node_of_Some by fastforce+
  then show ?thesis
    by (meson split_list)
qed

lemma GetNode_tracked:
  assumes "lruk_inv r"
  shows "GetNode r f = Some (node_of r f)"
proof (cases "node_of r f")
  case None
  then have "f \<notin> frame_id ` set (history_list r @ buffer_list r)"
    by (rule iffD1 [OF node_of_None])
  with assms have "f \<notin> history_frames r" "f \<notin> buffer_frames r"
    by (auto simp: lruk_inv_def)
  with None show ?thesis
    by (simp add: GetNode_def)
next
  case (Some n)
  then have "f \<in> frame_id ` set (history_list r @ buffer_list r)"
    by (metis node_of_None option.distinct(1))
  with assms have "f \<in> history_frames r \<or> f \<in> buffer_frames r"
    and "\<not> (f \<in> history_frames r \<and> f \<in> buffer_frames r)"
    by (auto simp: lruk_inv_def)
  with Some show ?thesis
    by (auto simp: GetNode_def)
qed


lemma lruk_inv_store_evictable:
  assumes inv: "lruk_inv r" and n: "node_of r f = Some n" and ne: "evictable n \<noteq> b"
  shows "lruk_inv (r\<lparr>history_list := store_node (n\<lparr>evictable := b\<rparr>) (history_list r),
                     buffer_list := store_node (n\<lparr>evictable := b\<rparr>) (buffer_list r),
                     curr_size := curr_size r + (if b then 1 else - 1)\<rparr>)"
proof -
  let ?m = "n\<lparr>evictable := b\<rparr>"
  from inv have d: "distinct (map frame_id (history_list r @ buffer_list r))"
    by (simp add: lruk_inv_def)
  from inv have cs: "unat (curr_size r) = length (filter evictable (history_list r @ buffer_list r))"
    and cap: "length (history_list r) + length (buffer_list r) \<le> unat (replacer_size r)"
    by (simp_all add: lruk_inv_def)
  from node_split [OF n] consider
    (h) xs ys where "history_list r = xs @ n # ys" | (c) xs ys where "buffer_list r = xs @ n # ys"
    by blast
  then show ?thesis
  proof cases
    case h
    from d have "distinct (map frame_id (history_list r))"
      by simp
    then have dh: "distinct (map frame_id (xs @ n # ys))"
      unfolding h .
    have sh: "store_node ?m (history_list r) = xs @ ?m # ys"
      unfolding h by (rule store_node_split [OF dh]) simp
    from d h have sb: "store_node ?m (buffer_list r) = buffer_list r"
      by (intro store_node_absent) auto
    show ?thesis
    proof (cases b)
      case True
      with ne cs cap h have "unat (curr_size r) < unat (replacer_size r)"
        using length_filter_le [of evictable xs] length_filter_le [of evictable ys]
          length_filter_le [of evictable "buffer_list r"] by (simp del: length_filter_le)
      then have "unat (curr_size r + 1) = Suc (unat (curr_size r))"
        by (rule unat_inc_nat)
      with inv h True ne show ?thesis
        unfolding sh sb by (auto simp: lruk_inv_def)
    next
      case False
      with ne cs h have "curr_size r \<noteq> 0"
        by auto
      then have "unat (curr_size r - 1) = unat (curr_size r) - 1"
        by (rule unat_dec)
      with inv h False ne show ?thesis
        unfolding sh sb by (auto simp: lruk_inv_def)
    qed
  next
    case c
    note cc = c
    from d have "distinct (map frame_id (buffer_list r))"
      by simp
    then have dh: "distinct (map frame_id (xs @ n # ys))"
      unfolding cc .
    have sh: "store_node ?m (buffer_list r) = xs @ ?m # ys"
      unfolding cc by (rule store_node_split [OF dh]) simp
    from d cc have sb: "store_node ?m (history_list r) = history_list r"
      by (intro store_node_absent) auto
    show ?thesis
    proof (cases b)
      case True
      with ne cs cap cc have "unat (curr_size r) < unat (replacer_size r)"
        using length_filter_le [of evictable xs] length_filter_le [of evictable ys]
          length_filter_le [of evictable "history_list r"] by (simp del: length_filter_le)
      then have "unat (curr_size r + 1) = Suc (unat (curr_size r))"
        by (rule unat_inc_nat)
      with inv cc True ne show ?thesis
        unfolding sh sb by (auto simp: lruk_inv_def)
    next
      case False
      with ne cs cc have "curr_size r \<noteq> 0"
        by auto
      then have "unat (curr_size r - 1) = unat (curr_size r) - 1"
        by (rule unat_dec)
      with inv cc False ne show ?thesis
        unfolding sh sb by (auto simp: lruk_inv_def)
    qed
  qed
qed

lemma lruk_inv_SetEvictable:
  assumes "lruk_inv r" and "SetEvictable r f b = Some r'"
  shows "lruk_inv r'"
  using assms lruk_inv_store_evictable [OF assms(1), of f _ b]
  by (auto simp: SetEvictable_def GetNode_tracked Let_def split: if_splits option.splits)


lemma lruk_wf_lists:
  "lruk_wf r = wf_lists (history_list r) (buffer_list r) (history_frames r) (buffer_frames r)"
  by (simp add: lruk_wf_def wf_lists_def)

lemma set_unlink: "set (unlink f xs) = {n \<in> set xs. frame_id n \<noteq> f}"
  by (auto simp: unlink_def)

lemma set_store_node: "set (store_node m xs) \<subseteq> insert m {n \<in> set xs. frame_id n \<noteq> frame_id m}"
  by (auto simp: store_node_def)

lemma wf_lists_store: "wf_lists hs bs hf bf \<Longrightarrow> wf_lists (store_node m hs) (store_node m bs) hf bf"
  by (simp add: wf_lists_def map_store_node set_store_node_ids image_Un)

lemma wf_lists_unlink:
  "wf_lists hs bs hf bf \<Longrightarrow> wf_lists (unlink f hs) (unlink f bs) (hf - {f}) (bf - {f})"
  unfolding wf_lists_def
  by (auto simp: map_unlink set_unlink distinct_removeAll)

lemma wf_lists_absent:
  "wf_lists hs bs hf bf \<Longrightarrow> frame_id m \<notin> frame_id ` set (hs @ bs) \<Longrightarrow>
   wf_lists (m # hs) bs (insert (frame_id m) hf) bf \<and> wf_lists hs (m # bs) hf (insert (frame_id m) bf)"
  unfolding wf_lists_def by auto

lemma wf_lists_mono: "wf_lists hs bs hf bf \<Longrightarrow> hf \<union> bf \<subseteq> hf' \<union> bf' \<Longrightarrow> wf_lists hs bs hf' bf'"
  unfolding wf_lists_def by blast

lemma unlink_absent_ids: "f \<notin> frame_id ` set (unlink f hs @ unlink f bs)"
  by (auto simp: set_unlink)

lemma wf_lists_move:
  assumes "wf_lists hs bs hf bf" and "frame_id m = f" and "f \<in> hf \<union> bf"
  shows "wf_lists (unlink f hs) (m # unlink f bs) (hf - {f}) (insert f bf)"
    and "wf_lists (m # unlink f hs) (unlink f bs) hf bf"
    and "wf_lists (unlink f hs) (m # unlink f bs) hf bf"
proof -
  from wf_lists_unlink [OF assms(1), of f] assms(2) unlink_absent_ids [of f hs bs]
  have a: "wf_lists (m # unlink f hs) (unlink f bs) (insert f (hf - {f})) (bf - {f})"
    and b: "wf_lists (unlink f hs) (m # unlink f bs) (hf - {f}) (insert f (bf - {f}))"
    using wf_lists_absent [of "unlink f hs" "unlink f bs" "hf - {f}" "bf - {f}" m] by auto
  from b show "wf_lists (unlink f hs) (m # unlink f bs) (hf - {f}) (insert f bf)"
    by (rule wf_lists_mono) auto
  from a assms(3) show "wf_lists (m # unlink f hs) (unlink f bs) hf bf"
    by (elim wf_lists_mono) auto
  from b assms(3) show "wf_lists (unlink f hs) (m # unlink f bs) hf bf"
    by (elim wf_lists_mono) auto
qed

lemma count_access_eq:
  assumes "access_times n + 1 = lru_k r"
  shows "count_access r n =
           r\<lparr>history_list := unlink (frame_id n) (history_list r),
             buffer_list := n\<lparr>access_times := access_times n + 1\<rparr> # unlink (frame_id n) (buffer_list r),
             history_frames := history_frames r - {frame_id n},
             history_frame_size := history_frame_size r - 1,
             buffer_frames := insert (frame_id n) (buffer_frames r),
             buffer_frame_size := buffer_frame_size r + 1\<rparr>"
  using assms unlink_store_node [of "n\<lparr>access_times := access_times n + 1\<rparr>"]
  by (simp add: count_access_def Let_def EvictNodeFromList_def InsertNode_def)

lemma count_access_gt:
  assumes "lru_k r < access_times n + 1"
  shows "count_access r n =
           r\<lparr>history_list := unlink (frame_id n) (history_list r),
             buffer_list := n\<lparr>access_times := access_times n + 1\<rparr> # unlink (frame_id n) (buffer_list r)\<rparr>"
  using assms unlink_store_node [of "n\<lparr>access_times := access_times n + 1\<rparr>"]
  by (simp add: count_access_def Let_def EvictNodeFromList_def InsertNode_def MoveNodeToHead_def)

lemma count_access_lt:
  assumes "access_times n + 1 < lru_k r" and "access_times n + 1 \<noteq> 1"
  shows "count_access r n =
           r\<lparr>history_list := n\<lparr>access_times := access_times n + 1\<rparr> # unlink (frame_id n) (history_list r),
             buffer_list := unlink (frame_id n) (buffer_list r)\<rparr>"
  using assms unlink_store_node [of "n\<lparr>access_times := access_times n + 1\<rparr>"]
  by (simp add: count_access_def Let_def EvictNodeFromList_def InsertNode_def MoveNodeToHead_def)

lemma count_access_first:
  assumes "access_times n + 1 < lru_k r" and "access_times n + 1 = 1"
  shows "count_access r n =
           r\<lparr>history_list := store_node (n\<lparr>access_times := access_times n + 1\<rparr>) (history_list r),
             buffer_list := store_node (n\<lparr>access_times := access_times n + 1\<rparr>) (buffer_list r)\<rparr>"
  using assms by (simp add: count_access_def Let_def)

lemma count_access_cases:
  obtains (eq) "access_times n + 1 = lru_k r"
  | (gt) "lru_k r < access_times n + 1"
  | (lt) "access_times n + 1 < lru_k r" "access_times n + 1 \<noteq> 1"
  | (first) "access_times n + 1 < lru_k r" "access_times n + 1 = 1"
  by (metis linorder_less_linear)

lemma lruk_wf_count_access:
  assumes wf: "lruk_wf r" and n: "frame_id n \<in> history_frames r \<union> buffer_frames r"
  shows "lruk_wf (count_access r n)"
proof -
  define m where "m = n\<lparr>access_times := access_times n + 1\<rparr>"
  have f: "frame_id m = frame_id n"
    by (simp add: m_def)
  from wf have s: "wf_lists (history_list r) (buffer_list r) (history_frames r) (buffer_frames r)"
    by (simp add: lruk_wf_lists)
  note mv = wf_lists_move [OF s f n]
  show ?thesis
  proof (cases rule: count_access_cases [of n r])
    case eq
    from mv(1) show ?thesis
      by (simp add: count_access_eq [OF eq] lruk_wf_lists m_def)
  next
    case gt
    from mv(3) show ?thesis
      by (simp add: count_access_gt [OF gt] lruk_wf_lists m_def)
  next
    case lt
    from mv(2) show ?thesis
      by (simp add: count_access_lt [OF lt] lruk_wf_lists m_def)
  next
    case first
    from wf_lists_store [OF s, of m] show ?thesis
      by (simp add: count_access_first [OF first] lruk_wf_lists m_def)
  qed
qed

lemma set_count_access:
  "set (history_list (count_access r n) @ buffer_list (count_access r n))
     \<subseteq> insert (n\<lparr>access_times := access_times n + 1\<rparr>) (set (history_list r @ buffer_list r))"
proof (cases rule: count_access_cases [of n r])
  case eq
  show ?thesis
    by (auto simp: count_access_eq [OF eq] set_unlink)
next
  case gt
  show ?thesis
    by (auto simp: count_access_gt [OF gt] set_unlink)
next
  case lt
  show ?thesis
    by (auto simp: count_access_lt [OF lt] set_unlink)
next
  case first
  show ?thesis
    using set_store_node [of "n\<lparr>access_times := access_times n + 1\<rparr>" "history_list r"]
      set_store_node [of "n\<lparr>access_times := access_times n + 1\<rparr>" "buffer_list r"]
    by (auto simp: count_access_first [OF first])
qed


lemma is_evictable_iff:
  "is_evictable r f \<longleftrightarrow> (\<exists>n \<in> set (history_list r @ buffer_list r). frame_id n = f \<and> evictable n)"
  by (simp add: is_evictable_def list_ex_iff)

lemma GetNode_Some:
  assumes "GetNode r f = Some (Some n)"
  shows "node_of r f = Some n" and "tracked r f" and "frame_id n = f"
    and "n \<in> set (history_list r @ buffer_list r)"
proof -
  from assms show a: "node_of r f = Some n" and "tracked r f"
    by (auto simp: GetNode_def tracked_def split: if_splits option.splits)
  from node_of_Some [OF a] show "frame_id n = f" and "n \<in> set (history_list r @ buffer_list r)"
    by simp_all
qed

lemma GetNode_null:
  assumes "GetNode r f = Some None"
  shows "\<not> tracked r f"
  using assms by (auto simp: GetNode_def tracked_def split: if_splits option.splits)

lemma lruk_wf_untracked:
  "lruk_wf r \<Longrightarrow> \<not> tracked r f \<Longrightarrow> f \<notin> frame_id ` set (history_list r @ buffer_list r)"
  by (auto simp: lruk_wf_def tracked_def)

lemma lruk_wf_untracked_evictable: "lruk_wf r \<Longrightarrow> \<not> tracked r f \<Longrightarrow> \<not> is_evictable r f"
  using lruk_wf_untracked [of r f] by (auto simp: is_evictable_iff)

lemma lruk_wf_unique:
  assumes "lruk_wf r" and "n \<in> set (history_list r @ buffer_list r)"
    and "m \<in> set (history_list r @ buffer_list r)" and "frame_id m = frame_id n"
  shows "m = n"
proof -
  from assms(1) have "inj_on frame_id (set (history_list r @ buffer_list r))"
    by (simp only: lruk_wf_def distinct_map)
  with assms show ?thesis
    by (meson inj_onD)
qed

lemma lruk_wf_node_evictable:
  assumes "lruk_wf r" and "GetNode r f = Some (Some n)"
  shows "is_evictable r f = evictable n"
proof -
  note g = GetNode_Some [OF assms(2)]
  show ?thesis
  proof
    assume "is_evictable r f"
    then obtain m where m: "m \<in> set (history_list r @ buffer_list r)" "frame_id m = f" "evictable m"
      unfolding is_evictable_iff by blast
    from lruk_wf_unique [OF assms(1) g(4) m(1)] m(2) g(3) have "m = n"
      by simp
    with m(3) show "evictable n"
      by simp
  next
    assume "evictable n"
    with g(3,4) show "is_evictable r f"
      unfolding is_evictable_iff by blast
  qed
qed

lemma RecordAccess_wf:
  assumes wf: "lruk_wf r" and ra: "RecordAccess r f = Some r'"
  shows "lruk_wf r'" and "is_evictable r' g \<Longrightarrow> is_evictable r g"
proof -
  from ra consider
    (hit) n where "GetNode r f = Some (Some n)" "r' = count_access r n"
  | (full) "GetNode r f = Some None" "r' = r"
  | (new) "GetNode r f = Some None"
      "r' = count_access (r\<lparr>history_list := ListNode_init f # history_list r,
                             history_frames := insert f (history_frames r),
                             history_frame_size := history_frame_size r + 1\<rparr>) (ListNode_init f)"
    by (auto simp: RecordAccess_def Let_def InsertNode_def split: if_splits option.splits)
  then have "lruk_wf r' \<and> (is_evictable r' g \<longrightarrow> is_evictable r g)"
  proof cases
    case hit
    note g = GetNode_Some [OF hit(1)]
    from g have "frame_id n \<in> history_frames r \<union> buffer_frames r"
      by (simp add: tracked_def)
    with wf have "lruk_wf r'"
      unfolding hit(2) by (rule lruk_wf_count_access)
    moreover from set_count_access [of r n] g(4) have "is_evictable r' g \<longrightarrow> is_evictable r g"
      unfolding hit(2) is_evictable_iff by fastforce
    ultimately show ?thesis ..
  next
    case full
    with wf show ?thesis by simp
  next
    case new
    let ?r = "r\<lparr>history_list := ListNode_init f # history_list r,
                             history_frames := insert f (history_frames r),
                             history_frame_size := history_frame_size r + 1\<rparr>"
    from wf GetNode_null [OF new(1)]
    have a: "frame_id (ListNode_init f) \<notin> frame_id ` set (history_list r @ buffer_list r)"
      using lruk_wf_untracked [of r f] by (simp add: ListNode_init_def)
    from wf have "wf_lists (history_list r) (buffer_list r) (history_frames r) (buffer_frames r)"
      by (simp add: lruk_wf_lists)
    from wf_lists_absent [OF this a] have w: "lruk_wf ?r"
      by (simp add: lruk_wf_lists ListNode_init_def)
    have "frame_id (ListNode_init f) \<in> history_frames ?r \<union> buffer_frames ?r"
      by (simp add: ListNode_init_def)
    with w have "lruk_wf r'"
      unfolding new(2) by (rule lruk_wf_count_access)
    moreover from set_count_access [of ?r "ListNode_init f"]
    have "is_evictable r' g \<longrightarrow> is_evictable r g"
      unfolding new(2) is_evictable_iff by (fastforce simp: ListNode_init_def)
    ultimately show ?thesis ..
  qed
  then show "lruk_wf r'" and "is_evictable r' g \<Longrightarrow> is_evictable r g"
    by simp_all
qed

lemma store_node_ex_other:
  "g \<noteq> frame_id m \<Longrightarrow>
   (\<exists>x \<in> set (store_node m xs). frame_id x = g \<and> P x) = (\<exists>x \<in> set xs. frame_id x = g \<and> P x)"
  by (induction xs) (auto simp: store_node_def)

lemma store_node_same: "x \<in> set (store_node m xs) \<Longrightarrow> frame_id x = frame_id m \<Longrightarrow> x = m"
  by (auto simp: store_node_def split: if_splits)

lemma SetEvictable_wf:
  assumes wf: "lruk_wf r" and se: "SetEvictable r f b = Some r'"
  shows "lruk_wf r'" and "g \<noteq> f \<Longrightarrow> is_evictable r' g = is_evictable r g"
    and "\<not> b \<Longrightarrow> \<not> is_evictable r' f"
proof -
  from se consider
    (null) "GetNode r f = Some None" "r' = r"
  | (same) n where "GetNode r f = Some (Some n)" "evictable n = b" "r' = r"
  | (flip) n where "GetNode r f = Some (Some n)"
      "r' = r\<lparr>history_list := store_node (n\<lparr>evictable := b\<rparr>) (history_list r),
               buffer_list := store_node (n\<lparr>evictable := b\<rparr>) (buffer_list r),
               curr_size := curr_size r + (if b then 1 else - 1)\<rparr>"
    by (auto simp: SetEvictable_def Let_def split: if_splits option.splits)
  then have "lruk_wf r' \<and> (g \<noteq> f \<longrightarrow> is_evictable r' g = is_evictable r g) \<and>
             (\<not> b \<longrightarrow> \<not> is_evictable r' f)"
  proof cases
    case null
    with wf lruk_wf_untracked_evictable [OF wf GetNode_null [OF null(1)]] show ?thesis
      by simp
  next
    case same
    with wf lruk_wf_node_evictable [OF wf same(1)] show ?thesis
      by simp
  next
    case flip
    let ?m = "n\<lparr>evictable := b\<rparr>"
    note g = GetNode_Some [OF flip(1)]
    from wf have "wf_lists (history_list r) (buffer_list r) (history_frames r) (buffer_frames r)"
      by (simp add: lruk_wf_lists)
    from wf_lists_store [OF this, of ?m] have 1: "lruk_wf r'"
      by (simp add: flip(2) lruk_wf_lists)
    have fm: "frame_id ?m = f"
      using g(3) by simp
    have 2: "g \<noteq> f \<longrightarrow> is_evictable r' g = is_evictable r g"
      using fm by (auto simp: flip(2) is_evictable_iff bex_Un store_node_ex_other)
    have 3: "\<not> b \<longrightarrow> \<not> is_evictable r' f"
    proof (intro impI notI)
      assume nb: "\<not> b" and "is_evictable r' f"
      then obtain x where x: "x \<in> set (store_node ?m (history_list r)) \<or>
          x \<in> set (store_node ?m (buffer_list r))" "frame_id x = f" "evictable x"
        unfolding flip(2) is_evictable_iff by auto
      from x(1,2) fm have "x = ?m"
        by (metis store_node_same)
      with x(3) nb show False
        by simp
    qed
    from 1 2 3 show ?thesis by simp
  qed
  then show "lruk_wf r'" and "g \<noteq> f \<Longrightarrow> is_evictable r' g = is_evictable r g"
    and "\<not> b \<Longrightarrow> \<not> is_evictable r' f"
    by simp_all
qed

lemma Evict_SomeE:
  assumes "Evict r out = Some (b, f, r')"
  obtains (none) "curr_size r = 0" "\<not> b" "r' = r" "f = out"
  | (hist) n where "curr_size r \<noteq> 0" "b" "find evictable (rev (history_list r)) = Some n"
      "f = frame_id n"
      "r' = r\<lparr>history_list := unlink f (history_list r),
               buffer_list := unlink f (buffer_list r),
               history_frames := history_frames r - {f},
               history_frame_size := history_frame_size r - 1,
               curr_size := curr_size r - 1\<rparr>"
  | (cache) n where "curr_size r \<noteq> 0" "b" "find evictable (rev (history_list r)) = None"
      "find evictable (rev (buffer_list r)) = Some n" "f = frame_id n"
      "r' = r\<lparr>history_list := unlink f (history_list r),
               buffer_list := unlink f (buffer_list r),
               buffer_frames := buffer_frames r - {f},
               buffer_frame_size := buffer_frame_size r - 1,
               curr_size := curr_size r - 1\<rparr>"
proof (cases "curr_size r = 0")
  case True
  with assms have "\<not> b" "r' = r" "f = out"
    by (simp_all add: Evict_def)
  with True show thesis
    by (rule none)
next
  case nz: False
  show thesis
  proof (cases "find evictable (rev (history_list r))")
    case (Some n)
    with nz assms have "b" "f = frame_id n"
      "r' = r\<lparr>history_list := unlink (frame_id n) (history_list r),
               buffer_list := unlink (frame_id n) (buffer_list r),
               history_frames := history_frames r - {frame_id n},
               history_frame_size := history_frame_size r - 1,
               curr_size := curr_size r - 1\<rparr>"
      by (auto simp: Evict_def Let_def GetFirstEvictableNode_def EvictNodeFromList_def)
    with nz Some show thesis
      by (intro hist [of n]) simp_all
  next
    case None
    note nh = None
    show thesis
    proof (cases "find evictable (rev (buffer_list r))")
      case None
      with nz nh assms show thesis
        by (simp add: Evict_def GetFirstEvictableNode_def)
    next
      case (Some n)
      with nz nh assms have "b" "f = frame_id n"
        "r' = r\<lparr>history_list := unlink (frame_id n) (history_list r),
                 buffer_list := unlink (frame_id n) (buffer_list r),
                 buffer_frames := buffer_frames r - {frame_id n},
                 buffer_frame_size := buffer_frame_size r - 1,
                 curr_size := curr_size r - 1\<rparr>"
        by (auto simp: Evict_def Let_def GetFirstEvictableNode_def EvictNodeFromList_def)
      with nz nh Some show thesis
        by (intro cache [of n]) simp_all
    qed
  qed
qed

lemma Remove_SomeE:
  assumes "Remove r f = Some r'"
  obtains (null) "frame_id_ok r f" "GetNode r f = Some None" "r' = r"
  | (pinned) n where "frame_id_ok r f" "GetNode r f = Some (Some n)" "\<not> evictable n" "r' = r"
  | (hist) n where "frame_id_ok r f" "GetNode r f = Some (Some n)" "evictable n" "f \<in> history_frames r"
      "r' = r\<lparr>history_list := unlink f (history_list r),
               buffer_list := unlink f (buffer_list r),
               history_frames := history_frames r - {f},
               history_frame_size := history_frame_size r - 1,
               curr_size := curr_size r - 1\<rparr>"
  | (cache) n where "frame_id_ok r f" "GetNode r f = Some (Some n)" "evictable n" "f \<notin> history_frames r"
      "r' = r\<lparr>history_list := unlink f (history_list r),
               buffer_list := unlink f (buffer_list r),
               buffer_frames := buffer_frames r - {f},
               buffer_frame_size := buffer_frame_size r - 1,
               curr_size := curr_size r - 1\<rparr>"
proof -
  from assms have ok: "frame_id_ok r f"
    by (simp add: Remove_def split: if_splits)
  from assms obtain g where g: "GetNode r f = Some g"
    by (auto simp: Remove_def split: if_splits option.splits)
  show thesis
  proof (cases g)
    case None
    with assms ok g have "r' = r"
      by (simp add: Remove_def)
    with ok g None show thesis
      by (intro null) simp_all
  next
    case (Some n)
    note gn = GetNode_Some [OF g [unfolded Some]]
    show thesis
    proof (cases "evictable n")
      case False
      with assms ok g Some have "r' = r"
        by (simp add: Remove_def)
      with ok g Some False show thesis
        by (intro pinned [of n]) simp_all
    next
      case True
      show thesis
      proof (cases "f \<in> history_frames r")
        case h: True
        with assms ok g Some True gn(3) have
          "r' = r\<lparr>history_list := unlink f (history_list r),
               buffer_list := unlink f (buffer_list r),
               history_frames := history_frames r - {f},
               history_frame_size := history_frame_size r - 1,
               curr_size := curr_size r - 1\<rparr>"
          by (simp add: Remove_def Let_def EvictNodeFromList_def)
        with ok g Some True h show thesis
          by (intro hist [of n]) simp_all
      next
        case h: False
        with assms ok g Some True gn(3) have
          "r' = r\<lparr>history_list := unlink f (history_list r),
               buffer_list := unlink f (buffer_list r),
               buffer_frames := buffer_frames r - {f},
               buffer_frame_size := buffer_frame_size r - 1,
               curr_size := curr_size r - 1\<rparr>"
          by (simp add: Remove_def Let_def EvictNodeFromList_def)
        with ok g Some True h show thesis
          by (intro cache [of n]) simp_all
      qed
    qed
  qed
qed

lemma Evict_wf:
  assumes wf: "lruk_wf r" and ev: "Evict r out = Some (b, f, r')"
  shows "lruk_wf r'" and "is_evictable r' g \<Longrightarrow> is_evictable r g \<and> (b \<longrightarrow> g \<noteq> f)"
    and "b \<Longrightarrow> is_evictable r f" and "\<not> b \<Longrightarrow> r' = r \<and> f = out"
proof -
  from wf have s: "wf_lists (history_list r) (buffer_list r) (history_frames r) (buffer_frames r)"
    by (simp add: lruk_wf_lists)
  have u: "is_evictable (r\<lparr>history_list := unlink f (history_list r),
               buffer_list := unlink f (buffer_list r)\<rparr>) g \<longrightarrow> is_evictable r g \<and> g \<noteq> f"
    unfolding is_evictable_iff by (auto simp: set_unlink)
  from ev have "lruk_wf r' \<and> (is_evictable r' g \<longrightarrow> is_evictable r g \<and> (b \<longrightarrow> g \<noteq> f)) \<and>
      (b \<longrightarrow> is_evictable r f) \<and> (\<not> b \<longrightarrow> r' = r \<and> f = out)"
  proof (cases rule: Evict_SomeE)
    case none
    with wf show ?thesis by simp
  next
    case (hist n)
    from wf_lists_unlink [OF s, of f]
    have "wf_lists (unlink f (history_list r)) (unlink f (buffer_list r))
        (history_frames r - {f}) (buffer_frames r)"
      by (rule wf_lists_mono) auto
    then have "lruk_wf r'"
      by (simp add: lruk_wf_lists hist(5))
    moreover from find_rev_Some [OF hist(3)] hist(4) have "is_evictable r f"
      unfolding is_evictable_iff by auto
    moreover from u have "is_evictable r' g \<longrightarrow> is_evictable r g \<and> g \<noteq> f"
      by (simp add: is_evictable_def hist(5))
    ultimately show ?thesis using hist(2) by simp
  next
    case (cache n)
    from wf_lists_unlink [OF s, of f]
    have "wf_lists (unlink f (history_list r)) (unlink f (buffer_list r))
        (history_frames r) (buffer_frames r - {f})"
      by (rule wf_lists_mono) auto
    then have "lruk_wf r'"
      by (simp add: lruk_wf_lists cache(6))
    moreover from find_rev_Some [OF cache(4)] cache(5) have "is_evictable r f"
      unfolding is_evictable_iff by auto
    moreover from u have "is_evictable r' g \<longrightarrow> is_evictable r g \<and> g \<noteq> f"
      by (simp add: is_evictable_def cache(6))
    ultimately show ?thesis using cache(2) by simp
  qed
  then show "lruk_wf r'" and "is_evictable r' g \<Longrightarrow> is_evictable r g \<and> (b \<longrightarrow> g \<noteq> f)"
    and "b \<Longrightarrow> is_evictable r f" and "\<not> b \<Longrightarrow> r' = r \<and> f = out"
    by simp_all
qed

lemma Remove_wf:
  assumes wf: "lruk_wf r" and rm: "Remove r f = Some r'"
  shows "lruk_wf r'" and "is_evictable r' g \<Longrightarrow> is_evictable r g"
proof -
  from wf have s: "wf_lists (history_list r) (buffer_list r) (history_frames r) (buffer_frames r)"
    by (simp add: lruk_wf_lists)
  have u: "is_evictable (r\<lparr>history_list := unlink f (history_list r),
               buffer_list := unlink f (buffer_list r)\<rparr>) g \<longrightarrow> is_evictable r g"
    unfolding is_evictable_iff by (auto simp: set_unlink)
  from rm have "lruk_wf r' \<and> (is_evictable r' g \<longrightarrow> is_evictable r g)"
  proof (cases rule: Remove_SomeE)
    case null
    with wf show ?thesis by simp
  next
    case (pinned n)
    with wf show ?thesis by simp
  next
    case (hist n)
    from wf_lists_unlink [OF s, of f]
    have "wf_lists (unlink f (history_list r)) (unlink f (buffer_list r))
        (history_frames r - {f}) (buffer_frames r)"
      by (rule wf_lists_mono) auto
    then have "lruk_wf r'"
      by (simp add: lruk_wf_lists hist(5))
    moreover from u have "is_evictable r' g \<longrightarrow> is_evictable r g"
      by (simp add: is_evictable_def hist(5))
    ultimately show ?thesis by simp
  next
    case (cache n)
    from wf_lists_unlink [OF s, of f]
    have "wf_lists (unlink f (history_list r)) (unlink f (buffer_list r))
        (history_frames r) (buffer_frames r - {f})"
      by (rule wf_lists_mono) auto
    then have "lruk_wf r'"
      by (simp add: lruk_wf_lists cache(5))
    moreover from u have "is_evictable r' g \<longrightarrow> is_evictable r g"
      by (simp add: is_evictable_def cache(5))
    ultimately show ?thesis by simp
  qed
  then show "lruk_wf r'" and "is_evictable r' g \<Longrightarrow> is_evictable r g"
    by simp_all
qed

lemma lruk_wf_init: "lruk_wf (LRUKReplacer_init n k)"
  by (simp add: lruk_wf_def LRUKReplacer_init_def)


lemma lruk_inv_wf: "lruk_inv r \<Longrightarrow> lruk_wf r"
  by (auto simp: lruk_inv_def lruk_wf_def)

lemma lruk_inv_tracked: "lruk_inv r \<Longrightarrow> tracked r f \<longleftrightarrow> f \<in> frame_id ` set (history_list r @ buffer_list r)"
  by (auto simp: lruk_inv_def tracked_def)

lemma lruk_inv_full:
  assumes "lruk_inv r"
  shows "history_frame_size r + buffer_frame_size r = replacer_size r \<longleftrightarrow>
         num_tracked r = unat (replacer_size r)"
proof -
  from assms have h: "unat (history_frame_size r) = length (history_list r)"
    and b: "unat (buffer_frame_size r) = length (buffer_list r)"
    and c: "length (history_list r) + length (buffer_list r) \<le> unat (replacer_size r)"
    by (simp_all add: lruk_inv_def)
  from h b c have "unat (history_frame_size r + buffer_frame_size r) = num_tracked r"
    using unat_add_le [of "history_frame_size r" "buffer_frame_size r" "replacer_size r"]
    by (simp add: num_tracked_def)
  then show ?thesis
    by (simp add: word_unat_eq_iff)
qed

lemma RecordAccess_untracked:
  assumes inv: "lruk_inv r" and ok: "frame_id_ok r f" and u: "\<not> tracked r f"
  shows "RecordAccess r f =
           (if num_tracked r = unat (replacer_size r) then Some r
            else Some (count_access
                    (r\<lparr>history_list := ListNode_init f # history_list r,
                       history_frames := insert f (history_frames r),
                       history_frame_size := history_frame_size r + 1\<rparr>) (ListNode_init f)))"
proof -
  from inv u have "node_of r f = None"
    by (simp add: node_of_None lruk_inv_tracked)
  with inv have "GetNode r f = Some None"
    by (simp add: GetNode_tracked)
  with ok show ?thesis
    by (simp add: RecordAccess_def lruk_inv_full [OF inv] Let_def InsertNode_def)
qed

lemma RecordAccess_tracked:
  assumes inv: "lruk_inv r" and ok: "frame_id_ok r f" and n: "node_of r f = Some n"
  shows "RecordAccess r f = Some (count_access r n)"
  using ok n by (simp add: RecordAccess_def GetNode_tracked [OF inv])


lemma lruk_inv_parts:
  "lruk_inv r \<longleftrightarrow>
   inv_parts (lru_k r) (replacer_size r) (history_list r) (buffer_list r) (history_frames r)
     (buffer_frames r) (history_frame_size r) (buffer_frame_size r) (curr_size r)"
  by (simp add: lruk_inv_def inv_parts_def)

lemma unat_dec_Suc: "unat (w :: size_t) = Suc n \<Longrightarrow> unat (w - 1) = n"
  using unat_dec [of w] by (metis diff_Suc_1 unat_eq_0 nat.distinct(1))

lemma unat_inc_lt: "unat (w :: size_t) < unat (c :: size_t) \<Longrightarrow> unat (w + 1) = Suc (unat w)"
  by (rule unat_inc_nat)

lemma parts_history_to_buffer:
  assumes "inv_parts k cap (xs @ n # ys) bs hf bf hsz bsz csz"
    and "k \<le> access_times m" and "frame_id m = frame_id n" and "evictable m = evictable n"
  shows "inv_parts k cap (xs @ ys) (m # bs) (hf - {frame_id n}) (insert (frame_id n) bf)
           (hsz - 1) (bsz + 1) csz"
proof -
  from assms(1) have "unat hsz = Suc (length xs + length ys)"
    and "unat bsz < unat cap"
    by (simp_all add: inv_parts_def)
  then have "unat (hsz - 1) = length xs + length ys" and "unat (bsz + 1) = Suc (unat bsz)"
    by (simp_all add: unat_dec_Suc unat_inc_lt)
  with assms show ?thesis
    by (auto simp: inv_parts_def) (metis imageI)+
qed

lemma parts_history_front:
  assumes "inv_parts k cap (xs @ n # ys) bs hf bf hsz bsz csz"
    and "access_times m < k" and "frame_id m = frame_id n" and "evictable m = evictable n"
  shows "inv_parts k cap (m # xs @ ys) bs hf bf hsz bsz csz"
    and "inv_parts k cap (xs @ m # ys) bs hf bf hsz bsz csz"
  using assms by (auto simp: inv_parts_def)

lemma parts_buffer_front:
  assumes "inv_parts k cap hs (xs @ n # ys) hf bf hsz bsz csz"
    and "k \<le> access_times m" and "frame_id m = frame_id n" and "evictable m = evictable n"
  shows "inv_parts k cap hs (m # xs @ ys) hf bf hsz bsz csz"
  using assms by (auto simp: inv_parts_def)

lemma parts_drop_history:
  assumes "inv_parts k cap (xs @ n # ys) bs hf bf hsz bsz csz" and "evictable n"
  shows "inv_parts k cap (xs @ ys) bs (hf - {frame_id n}) bf (hsz - 1) bsz (csz - 1)"
proof -
  from assms have "unat hsz = Suc (length xs + length ys)"
    and "unat csz = Suc (length (filter evictable (xs @ ys @ bs)))"
    by (simp_all add: inv_parts_def)
  then have "unat (hsz - 1) = length xs + length ys"
    and "unat (csz - 1) = length (filter evictable (xs @ ys @ bs))"
    by (simp_all add: unat_dec_Suc)
  with assms show ?thesis
    by (auto simp: inv_parts_def) (metis imageI)+
qed

lemma parts_drop_buffer:
  assumes "inv_parts k cap hs (xs @ n # ys) hf bf hsz bsz csz" and "evictable n"
  shows "inv_parts k cap hs (xs @ ys) hf (bf - {frame_id n}) hsz (bsz - 1) (csz - 1)"
proof -
  from assms have "unat bsz = Suc (length xs + length ys)"
    and "unat csz = Suc (length (filter evictable (hs @ xs @ ys)))"
    by (simp_all add: inv_parts_def)
  then have "unat (bsz - 1) = length xs + length ys"
    and "unat (csz - 1) = length (filter evictable (hs @ xs @ ys))"
    by (simp_all add: unat_dec_Suc)
  with assms show ?thesis
    by (auto simp: inv_parts_def) (metis imageI)+
qed

lemma parts_new_history:
  assumes "inv_parts k cap hs bs hf bf hsz bsz csz"
    and "f \<notin> frame_id ` set (hs @ bs)" and "length hs + length bs \<noteq> unat cap" and "k \<noteq> 0"
  shows "inv_parts k cap (ListNode_init f # hs) bs (insert f hf) bf (hsz + 1) bsz csz"
proof -
  from assms have "unat hsz < unat cap"
    by (simp add: inv_parts_def)
  then have "unat (hsz + 1) = Suc (unat hsz)"
    by (rule unat_inc_lt)
  moreover from assms(4) have "0 < k"
    by (simp add: word_greater_zero_iff)
  ultimately show ?thesis
    using assms by (auto simp: inv_parts_def ListNode_init_def)
qed


lemma lruk_inv_Evict:
  assumes inv: "lruk_inv r" and ev: "Evict r out = Some (b, f, r')"
  shows "lruk_inv r'"
  using ev
proof (cases rule: Evict_SomeE)
  case none
  with inv show ?thesis by simp
next
  case (hist n)
  from find_rev_Some [OF hist(3)] obtain xs ys where
    l: "history_list r = xs @ n # ys" and e: "evictable n" and t: "\<not> list_ex evictable ys"
    by blast
  from Evict_history [OF inv l e t, of out] ev have
    "r' = r\<lparr>history_list := xs @ ys, history_frames := history_frames r - {frame_id n},
            history_frame_size := history_frame_size r - 1, curr_size := curr_size r - 1\<rparr>"
    by simp
  with parts_drop_history [OF inv [unfolded lruk_inv_parts l] e] show ?thesis
    by (simp add: lruk_inv_parts)
next
  case (cache n)
  from find_rev_Some [OF cache(4)] obtain xs ys where
    l: "buffer_list r = xs @ n # ys" and e: "evictable n" and t: "\<not> list_ex evictable ys"
    by blast
  from cache(3) have nh: "\<not> list_ex evictable (history_list r)"
    by (simp add: find_rev_None)
  from Evict_cache [OF inv nh l e t, of out] ev have
    "r' = r\<lparr>buffer_list := xs @ ys, buffer_frames := buffer_frames r - {frame_id n},
            buffer_frame_size := buffer_frame_size r - 1, curr_size := curr_size r - 1\<rparr>"
    by simp
  with parts_drop_buffer [OF inv [unfolded lruk_inv_parts l] e] show ?thesis
    by (simp add: lruk_inv_parts)
qed

lemma lruk_inv_in_history:
  assumes inv: "lruk_inv r" and l: "history_list r = xs @ n # ys"
  shows "unlink (frame_id n) (history_list r) = xs @ ys"
    and "unlink (frame_id n) (buffer_list r) = buffer_list r"
    and "frame_id n \<in> history_frames r" and "frame_id n \<notin> buffer_frames r"
    and "access_times n < lru_k r"
proof -
  from inv have d: "distinct (map frame_id (history_list r))"
    and x: "frame_id ` set (history_list r) \<inter> frame_id ` set (buffer_list r) = {}"
    and h: "history_frames r = frame_id ` set (history_list r)"
    and b: "buffer_frames r = frame_id ` set (buffer_list r)"
    and a: "list_all (\<lambda>n. access_times n < lru_k r) (history_list r)"
    by (simp_all add: lruk_inv_def)
  from d show "unlink (frame_id n) (history_list r) = xs @ ys"
    unfolding l by (rule unlink_split)
  from h l show m: "frame_id n \<in> history_frames r"
    by simp
  with x h b show nb: "frame_id n \<notin> buffer_frames r"
    by blast
  with b show "unlink (frame_id n) (buffer_list r) = buffer_list r"
    by (simp add: unlink_absent)
  from a l show "access_times n < lru_k r"
    by simp
qed

lemma lruk_inv_in_buffer:
  assumes inv: "lruk_inv r" and l: "buffer_list r = xs @ n # ys"
  shows "unlink (frame_id n) (buffer_list r) = xs @ ys"
    and "unlink (frame_id n) (history_list r) = history_list r"
    and "frame_id n \<in> buffer_frames r" and "frame_id n \<notin> history_frames r"
    and "lru_k r \<le> access_times n"
proof -
  from inv have d: "distinct (map frame_id (buffer_list r))"
    and x: "frame_id ` set (history_list r) \<inter> frame_id ` set (buffer_list r) = {}"
    and h: "history_frames r = frame_id ` set (history_list r)"
    and b: "buffer_frames r = frame_id ` set (buffer_list r)"
    and a: "list_all (\<lambda>n. lru_k r \<le> access_times n) (buffer_list r)"
    by (simp_all add: lruk_inv_def)
  from d show "unlink (frame_id n) (buffer_list r) = xs @ ys"
    unfolding l by (rule unlink_split)
  from b l show m: "frame_id n \<in> buffer_frames r"
    by simp
  with x h b show nb: "frame_id n \<notin> history_frames r"
    by blast
  with h show "unlink (frame_id n) (history_list r) = history_list r"
    by (simp add: unlink_absent)
  from a l show "lru_k r \<le> access_times n"
    by simp
qed

lemma lruk_inv_Remove:
  assumes inv: "lruk_inv r" and rm: "Remove r f = Some r'"
  shows "lruk_inv r'"
  using rm
proof (cases rule: Remove_SomeE)
  case null
  with inv show ?thesis by simp
next
  case (pinned n)
  with inv show ?thesis by simp
next
  case (hist n)
  note g = GetNode_Some [OF hist(2)]
  from node_split [OF g(1)] hist(4) lruk_inv_in_buffer(4) [OF inv] g(3)
  obtain xs ys where l: "history_list r = xs @ n # ys"
    by blast
  note u = lruk_inv_in_history [OF inv l]
  from parts_drop_history [OF inv [unfolded lruk_inv_parts l] hist(3)] u(1,2) g(3) show ?thesis
    by (simp add: lruk_inv_parts hist(5))
next
  case (cache n)
  note g = GetNode_Some [OF cache(2)]
  from node_split [OF g(1)] cache(4) lruk_inv_in_history(3) [OF inv] g(3)
  obtain xs ys where l: "buffer_list r = xs @ n # ys"
    by blast
  note u = lruk_inv_in_buffer [OF inv l]
  from parts_drop_buffer [OF inv [unfolded lruk_inv_parts l] cache(3)] u(1,2) g(3) show ?thesis
    by (simp add: lruk_inv_parts cache(5))
qed

lemma lruk_inv_count_access:
  assumes inv: "lruk_inv r" and n: "n \<in> set (history_list r @ buffer_list r)"
    and nowrap: "access_times n + 1 \<noteq> 0"
  shows "lruk_inv (count_access r n)"
proof -
  define m where "m = n\<lparr>access_times := access_times n + 1\<rparr>"
  have m: "frame_id m = frame_id n" "evictable m = evictable n" "access_times m = access_times n + 1"
    by (simp_all add: m_def)
  from n consider (h) xs ys where "history_list r = xs @ n # ys"
    | (b) xs ys where "buffer_list r = xs @ n # ys"
    by (auto dest: split_list)
  then show ?thesis
  proof cases
    case h
    note u = lruk_inv_in_history [OF inv h]
    note p = inv [unfolded lruk_inv_parts h]
    from inv have d: "distinct (map frame_id (history_list r))"
      by (simp add: lruk_inv_def)
    show ?thesis
    proof (cases rule: count_access_cases [of n r])
      case eq
      with parts_history_to_buffer [OF p, of m] m u show ?thesis
        by (simp add: count_access_eq [OF eq] lruk_inv_parts m_def)
    next
      case gt
      with u(5) show ?thesis
        using inc_le [of "access_times n" "lru_k r"] by simp
    next
      case lt
      with parts_history_front(1) [OF p, of m] m u show ?thesis
        by (simp add: count_access_lt [OF lt] lruk_inv_parts m_def)
    next
      case first
      from d have "store_node m (history_list r) = xs @ m # ys"
        unfolding h by (rule store_node_split) (simp add: m)
      moreover from u(4) inv have "store_node m (buffer_list r) = buffer_list r"
        by (intro store_node_absent) (simp add: m lruk_inv_def)
      ultimately show ?thesis
        using parts_history_front(2) [OF p, of m] m first
        by (simp add: count_access_first [OF first] lruk_inv_parts m_def)
    qed
  next
    case b
    note u = lruk_inv_in_buffer [OF inv b]
    note p = inv [unfolded lruk_inv_parts b]
    from word_succ_gt [OF u(5) nowrap] have gt: "lru_k r < access_times n + 1" .
    with parts_buffer_front [OF p, of m] m u show ?thesis
      by (simp add: count_access_gt [OF gt] lruk_inv_parts m_def)
  qed
qed

lemma lruk_inv_RecordAccess:
  assumes inv: "lruk_inv r" and ra: "RecordAccess r f = Some r'"
    and k: "lru_k r \<noteq> 0"
    and nowrap: "\<And>n. node_of r f = Some n \<Longrightarrow> access_times n + 1 \<noteq> 0"
  shows "lruk_inv r'"
proof -
  from ra have ok: "frame_id_ok r f"
    by (simp add: RecordAccess_def split: if_splits)
  show ?thesis
  proof (cases "node_of r f")
    case (Some n)
    from ra RecordAccess_tracked [OF inv ok Some] have "r' = count_access r n"
      by simp
    with lruk_inv_count_access [OF inv _ nowrap [OF Some]] node_of_Some [OF Some] show ?thesis
      by simp
  next
    case None
    then have nt: "\<not> tracked r f"
      by (simp add: lruk_inv_tracked [OF inv] node_of_None)
    let ?r = "r\<lparr>history_list := ListNode_init f # history_list r,
                       history_frames := insert f (history_frames r),
                       history_frame_size := history_frame_size r + 1\<rparr>"
    show ?thesis
    proof (cases "num_tracked r = unat (replacer_size r)")
      case True
      with ra RecordAccess_untracked [OF inv ok nt] inv show ?thesis
        by simp
    next
      case False
      with ra RecordAccess_untracked [OF inv ok nt] have r': "r' = count_access ?r (ListNode_init f)"
        by simp
      from None have "f \<notin> frame_id ` set (history_list r @ buffer_list r)"
        by (rule iffD1 [OF node_of_None])
      from parts_new_history [OF inv [unfolded lruk_inv_parts] this] False k have i: "lruk_inv ?r"
        by (simp add: lruk_inv_parts num_tracked_def)
      have "access_times (ListNode_init f) + 1 \<noteq> 0"
        by (simp add: ListNode_init_def)
      from lruk_inv_count_access [OF i _ this] show ?thesis
        by (simp add: r')
    qed
  qed
qed


lemma store_node_Cons:
  "store_node m (x # xs) = (if frame_id x = frame_id m then m else x) # store_node m xs"
  by (simp add: store_node_def)

text \<open>
  C8, as amended. \<open>RecordAccess(f)\<close> on a frame that is not tracked, with fewer than
  \<open>replacer_size_\<close> frames tracked, makes a node with access count 1 that is not evictable,
  at the head of the history list when \<open>k_ > 1\<close> and at the head of the cache list when
  \<open>k_ = 1\<close> (the count has reached \<open>k_\<close> at once); with \<open>replacer_size_\<close> frames tracked
  it changes nothing. On a tracked frame the count goes up by one, and the node moves to
  the head of the cache list, out of the history list, when the count is now \<open>k_\<close>, to the
  head of the cache list when it is above \<open>k_\<close>, and to the head of the history list when
  it is strictly between 1 and \<open>k_\<close>.
\<close>

theorem RecordAccess_moves_node:
  assumes inv: "lruk_inv r" and ok: "frame_id_ok r f"
  shows
    "(\<not> tracked r f \<and> num_tracked r < unat (replacer_size r) \<and> 1 < lru_k r \<longrightarrow>
        RecordAccess r f =
          Some (r\<lparr>history_list :=
                     \<lparr>frame_id = f, access_times = 1, evictable = False\<rparr> # history_list r,
                   history_frames := insert f (history_frames r),
                   history_frame_size := history_frame_size r + 1\<rparr>)) \<and>
     (\<not> tracked r f \<and> num_tracked r < unat (replacer_size r) \<and> lru_k r = 1 \<longrightarrow>
        RecordAccess r f =
          Some (r\<lparr>buffer_list :=
                     \<lparr>frame_id = f, access_times = 1, evictable = False\<rparr> # buffer_list r,
                   buffer_frames := insert f (buffer_frames r),
                   buffer_frame_size := buffer_frame_size r + 1\<rparr>)) \<and>
     (\<not> tracked r f \<and> num_tracked r = unat (replacer_size r) \<longrightarrow> RecordAccess r f = Some r) \<and>
     (\<forall>n. node_of r f = Some n \<longrightarrow>
        (access_times n + 1 = lru_k r \<longrightarrow>
           RecordAccess r f =
             Some (r\<lparr>history_list := unlink f (history_list r),
                      buffer_list := n\<lparr>access_times := access_times n + 1\<rparr> # unlink f (buffer_list r),
                      history_frames := history_frames r - {f},
                      history_frame_size := history_frame_size r - 1,
                      buffer_frames := insert f (buffer_frames r),
                      buffer_frame_size := buffer_frame_size r + 1\<rparr>)) \<and>
        (lru_k r < access_times n + 1 \<longrightarrow>
           RecordAccess r f =
             Some (r\<lparr>history_list := unlink f (history_list r),
                      buffer_list := n\<lparr>access_times := access_times n + 1\<rparr> # unlink f (buffer_list r)\<rparr>)) \<and>
        (1 < access_times n + 1 \<and> access_times n + 1 < lru_k r \<longrightarrow>
           RecordAccess r f =
             Some (r\<lparr>history_list := n\<lparr>access_times := access_times n + 1\<rparr> # unlink f (history_list r),
                      buffer_list := unlink f (buffer_list r)\<rparr>)))"
proof (intro conjI impI allI; (elim conjE)?)
  let ?r = "r\<lparr>history_list := ListNode_init f # history_list r,
              history_frames := insert f (history_frames r),
              history_frame_size := history_frame_size r + 1\<rparr>"
  let ?m = "\<lparr>frame_id = f, access_times = 1, evictable = False\<rparr>"
  {
    assume nt: "\<not> tracked r f" and c: "num_tracked r < unat (replacer_size r)"
    from nt have a: "f \<notin> frame_id ` set (history_list r)" "f \<notin> frame_id ` set (buffer_list r)"
      "f \<notin> history_frames r"
      using lruk_inv_tracked [OF inv, of f] by (auto simp: tracked_def)
    from c RecordAccess_untracked [OF inv ok nt]
    have ra: "RecordAccess r f = Some (count_access ?r (ListNode_init f))"
      by simp
    {
      assume k: "1 < lru_k r"
      then have "access_times (ListNode_init f) + 1 < lru_k ?r" "access_times (ListNode_init f) + 1 = 1"
        by (simp_all add: ListNode_init_def)
      moreover from a have "store_node ?m (history_list r) = history_list r"
        "store_node ?m (buffer_list r) = buffer_list r"
        by (simp_all add: store_node_absent)
      ultimately show "RecordAccess r f = Some (r\<lparr>history_list := ?m # history_list r,
                   history_frames := insert f (history_frames r),
                   history_frame_size := history_frame_size r + 1\<rparr>)"
        by (simp add: ra count_access_first ListNode_init_def store_node_Cons)
    }
    {
      assume k: "lru_k r = 1"
      then have "access_times (ListNode_init f) + 1 = lru_k ?r"
        by (simp add: ListNode_init_def)
      from count_access_eq [OF this] a
      show "RecordAccess r f = Some (r\<lparr>buffer_list := ?m # buffer_list r,
                   buffer_frames := insert f (buffer_frames r),
                   buffer_frame_size := buffer_frame_size r + 1\<rparr>)"
        by (simp add: ra ListNode_init_def unlink_Cons unlink_absent)
    }
  }
  {
    assume nt: "\<not> tracked r f" and c: "num_tracked r = unat (replacer_size r)"
    with RecordAccess_untracked [OF inv ok nt] show "RecordAccess r f = Some r"
      by simp
  }
  fix n
  assume n: "node_of r f = Some n"
  note ra = RecordAccess_tracked [OF inv ok n]
  from node_of_Some [OF n] have f: "frame_id n = f"
    by simp
  {
    assume "access_times n + 1 = lru_k r"
    from count_access_eq [OF this] show "RecordAccess r f =
             Some (r\<lparr>history_list := unlink f (history_list r),
                      buffer_list := n\<lparr>access_times := access_times n + 1\<rparr> # unlink f (buffer_list r),
                      history_frames := history_frames r - {f},
                      history_frame_size := history_frame_size r - 1,
                      buffer_frames := insert f (buffer_frames r),
                      buffer_frame_size := buffer_frame_size r + 1\<rparr>)"
      by (simp add: ra f)
  }
  {
    assume "lru_k r < access_times n + 1"
    from count_access_gt [OF this] show "RecordAccess r f =
             Some (r\<lparr>history_list := unlink f (history_list r),
                      buffer_list := n\<lparr>access_times := access_times n + 1\<rparr> # unlink f (buffer_list r)\<rparr>)"
      by (simp add: ra f)
  }
  {
    assume "1 < access_times n + 1" "access_times n + 1 < lru_k r"
    then have "access_times n + 1 < lru_k r" "access_times n + 1 \<noteq> 1"
      by auto
    from count_access_lt [OF this] show "RecordAccess r f =
             Some (r\<lparr>history_list := n\<lparr>access_times := access_times n + 1\<rparr> # unlink f (history_list r),
                      buffer_list := unlink f (buffer_list r)\<rparr>)"
      by (simp add: ra f)
  }
qed


lemma Evict_general:
  assumes inv: "lruk_inv r"
  shows
    "(\<forall>xs n ys. history_list r = xs @ n # ys \<and> evictable n \<and> \<not> list_ex evictable ys \<longrightarrow>
        Evict r out =
          Some (True, frame_id n,
            r\<lparr>history_list := xs @ ys,
              history_frames := history_frames r - {frame_id n},
              history_frame_size := history_frame_size r - 1,
              curr_size := curr_size r - 1\<rparr>)) \<and>
     (\<forall>xs n ys. \<not> list_ex evictable (history_list r) \<and> buffer_list r = xs @ n # ys \<and>
          evictable n \<and> \<not> list_ex evictable ys \<longrightarrow>
        Evict r out =
          Some (True, frame_id n,
            r\<lparr>buffer_list := xs @ ys,
              buffer_frames := buffer_frames r - {frame_id n},
              buffer_frame_size := buffer_frame_size r - 1,
              curr_size := curr_size r - 1\<rparr>)) \<and>
     ((Evict r out = Some (False, out, r)) = (\<not> list_ex evictable (history_list r @ buffer_list r))) \<and>
     (\<forall>f r'. Evict r out = Some (True, f, r') \<longrightarrow>
        is_evictable r f \<and> \<not> tracked r' f \<and> node_of r' f = None \<and>
        Size r \<noteq> 0 \<and> unat (Size r') = unat (Size r) - 1 \<and> lruk_inv r') \<and>
     (\<exists>b f r'. Evict r out = Some (b, f, r'))"
proof (intro conjI allI impI; (elim conjE)?)
  fix xs n ys
  assume "history_list r = xs @ n # ys" "evictable n" "\<not> list_ex evictable ys"
  then show "Evict r out =
          Some (True, frame_id n,
            r\<lparr>history_list := xs @ ys,
              history_frames := history_frames r - {frame_id n},
              history_frame_size := history_frame_size r - 1,
              curr_size := curr_size r - 1\<rparr>)"
    by (rule Evict_history [OF inv])
next
  fix xs n ys
  assume "\<not> list_ex evictable (history_list r)" "buffer_list r = xs @ n # ys" "evictable n"
    "\<not> list_ex evictable ys"
  then show "Evict r out =
          Some (True, frame_id n,
            r\<lparr>buffer_list := xs @ ys,
              buffer_frames := buffer_frames r - {frame_id n},
              buffer_frame_size := buffer_frame_size r - 1,
              curr_size := curr_size r - 1\<rparr>)"
    by (rule Evict_cache [OF inv])
next
  show "(Evict r out = Some (False, out, r)) = (\<not> list_ex evictable (history_list r @ buffer_list r))"
  proof
    assume e: "Evict r out = Some (False, out, r)"
    then show "\<not> list_ex evictable (history_list r @ buffer_list r)"
      by (cases rule: Evict_SomeE) (simp_all add: lruk_inv_curr_size_0 [OF inv])
  next
    assume "\<not> list_ex evictable (history_list r @ buffer_list r)"
    with inv show "Evict r out = Some (False, out, r)"
      by (rule Evict_none)
  qed
next
  fix f r'
  assume e: "Evict r out = Some (True, f, r')"
  note w = Evict_wf [OF lruk_inv_wf [OF inv] e]
  from w(3) show "is_evictable r f"
    by simp
  from lruk_inv_Evict [OF inv e] show i: "lruk_inv r'" .
  from e have "f \<notin> frame_id ` set (history_list r' @ buffer_list r') \<and>
      curr_size r' = curr_size r - 1 \<and> curr_size r \<noteq> 0"
  proof (cases rule: Evict_SomeE)
    case none
    then show ?thesis by simp
  next
    case (hist n)
    with unlink_absent_ids [of f "history_list r" "buffer_list r"] show ?thesis
      by simp
  next
    case (cache n)
    with unlink_absent_ids [of f "history_list r" "buffer_list r"] show ?thesis
      by simp
  qed
  then have ids: "f \<notin> frame_id ` set (history_list r' @ buffer_list r')"
    and sz: "curr_size r' = curr_size r - 1" and nz: "curr_size r \<noteq> 0"
    by simp_all
  from ids show "node_of r' f = None"
    by (simp only: node_of_None not_False_eq_True)
  from ids show "\<not> tracked r' f"
    by (simp only: lruk_inv_tracked [OF i] not_False_eq_True)
  from nz show "Size r \<noteq> 0"
    by (simp add: Size_def)
  from sz nz show "unat (Size r') = unat (Size r) - 1"
    by (simp add: Size_def unat_dec)
next
  show "\<exists>b f r'. Evict r out = Some (b, f, r')"
  proof (cases "list_ex evictable (history_list r @ buffer_list r)")
    case False
    with inv have "Evict r out = Some (False, out, r)"
      by (rule Evict_none)
    then show ?thesis by blast
  next
    case True
    show ?thesis
    proof (cases "find evictable (rev (history_list r))")
      case (Some n)
      from find_rev_Some [OF Some] Evict_history [OF inv, of _ n _ out] show ?thesis
        by blast
    next
      case None
      then have nh: "\<not> list_ex evictable (history_list r)"
        by (simp add: find_rev_None)
      with True have "list_ex evictable (buffer_list r)"
        by (auto simp: list_ex_iff)
      then obtain n where "find evictable (rev (buffer_list r)) = Some n"
        using find_rev_None [of evictable "buffer_list r"] by fastforce
      from find_rev_Some [OF this] Evict_cache [OF inv nh, of _ n _ out] show ?thesis
        by blast
    qed
  qed
qed


lemmas lruk_eval = RecordAccess_def SetEvictable_def Evict_def GetNode_def node_of_def
  count_access_def MoveNodeToHead_def EvictNodeFromList_def InsertNode_def unlink_def
  store_node_def GetFirstEvictableNode_def frame_id_ok_def ListNode_init_def
  LRUKReplacer_init_def Let_def

lemma scenario_symbolic:
  assumes "A \<noteq> B" and "word_of_int A \<le> n" and "word_of_int B \<le> n" and "1 < n"
  shows "do {
     r1 \<leftarrow> RecordAccess (LRUKReplacer_init n 3) A;
     r2 \<leftarrow> RecordAccess r1 A;
     r3 \<leftarrow> RecordAccess r2 A;
     r4 \<leftarrow> RecordAccess r3 B;
     r5 \<leftarrow> SetEvictable r4 A True;
     r6 \<leftarrow> SetEvictable r5 B True;
     (b1, f1, r7) \<leftarrow> Evict r6 out;
     r8 \<leftarrow> RecordAccess r7 B;
     r9 \<leftarrow> RecordAccess r8 B;
     r10 \<leftarrow> RecordAccess r9 A;
     r11 \<leftarrow> SetEvictable r10 B True;
     (b2, f2, r12) \<leftarrow> Evict r11 out;
     (b3, f3, r13) \<leftarrow> Evict r10 out;
     Some (b1, f1, tracked r7 B, history_list r10, buffer_list r10, b2, f2, b3, f3)
   } = Some (True, B, False,
         [\<lparr>frame_id = B, access_times = 2, evictable = False\<rparr>],
         [\<lparr>frame_id = A, access_times = 4, evictable = True\<rparr>],
         True, B, True, A)"
proof -
  from assms(4) have "n \<noteq> 0" "n \<noteq> 1"
    by auto
  with assms(1-3) show ?thesis
    by (simp add: lruk_eval tracked_def)
qed

text \<open>
  The claim C8 as stated, for \<open>k_ = 1\<close>: the history list is empty after the first access
  to a frame, and the node is in the cache list.
\<close>

theorem RecordAccess_history_counterexample:
  "RecordAccess (LRUKReplacer_init 2 1) 0 =
     Some \<lparr>curr_size = 0, replacer_size = 2, lru_k = 1,
            history_list = [], history_frames = {}, history_frame_size = 0,
            buffer_list = [\<lparr>frame_id = 0, access_times = 1, evictable = False\<rparr>],
            buffer_frames = {0}, buffer_frame_size = 1\<rparr>"
  by (simp add: lruk_eval)

theorem RecordAccess_moves_node_witness:
  "RecordAccess (LRUKReplacer_init 2 2) 0 =
     Some \<lparr>curr_size = 0, replacer_size = 2, lru_k = 2,
            history_list = [\<lparr>frame_id = 0, access_times = 1, evictable = False\<rparr>],
            history_frames = {0}, history_frame_size = 1,
            buffer_list = [], buffer_frames = {}, buffer_frame_size = 0\<rparr> \<and>
   RecordAccess (LRUKReplacer_init 2 1) 0 =
     Some \<lparr>curr_size = 0, replacer_size = 2, lru_k = 1,
            history_list = [], history_frames = {}, history_frame_size = 0,
            buffer_list = [\<lparr>frame_id = 0, access_times = 1, evictable = False\<rparr>],
            buffer_frames = {0}, buffer_frame_size = 1\<rparr> \<and>
   RecordAccess
     \<lparr>curr_size = 0, replacer_size = 1, lru_k = 2,
       history_list = [\<lparr>frame_id = 0, access_times = 1, evictable = False\<rparr>],
       history_frames = {0}, history_frame_size = 1,
       buffer_list = [], buffer_frames = {}, buffer_frame_size = 0\<rparr> 1 =
     Some \<lparr>curr_size = 0, replacer_size = 1, lru_k = 2,
            history_list = [\<lparr>frame_id = 0, access_times = 1, evictable = False\<rparr>],
            history_frames = {0}, history_frame_size = 1,
            buffer_list = [], buffer_frames = {}, buffer_frame_size = 0\<rparr> \<and>
   RecordAccess
     \<lparr>curr_size = 0, replacer_size = 2, lru_k = 2,
       history_list = [\<lparr>frame_id = 0, access_times = 1, evictable = False\<rparr>],
       history_frames = {0}, history_frame_size = 1,
       buffer_list = [], buffer_frames = {}, buffer_frame_size = 0\<rparr> 0 =
     Some \<lparr>curr_size = 0, replacer_size = 2, lru_k = 2,
            history_list = [], history_frames = {}, history_frame_size = 0,
            buffer_list = [\<lparr>frame_id = 0, access_times = 2, evictable = False\<rparr>],
            buffer_frames = {0}, buffer_frame_size = 1\<rparr> \<and>
   RecordAccess
     \<lparr>curr_size = 0, replacer_size = 2, lru_k = 2,
       history_list = [], history_frames = {}, history_frame_size = 0,
       buffer_list = [\<lparr>frame_id = 1, access_times = 2, evictable = False\<rparr>,
                      \<lparr>frame_id = 0, access_times = 2, evictable = False\<rparr>],
       buffer_frames = {0, 1}, buffer_frame_size = 2\<rparr> 0 =
     Some \<lparr>curr_size = 0, replacer_size = 2, lru_k = 2,
            history_list = [], history_frames = {}, history_frame_size = 0,
            buffer_list = [\<lparr>frame_id = 0, access_times = 3, evictable = False\<rparr>,
                           \<lparr>frame_id = 1, access_times = 2, evictable = False\<rparr>],
            buffer_frames = {0, 1}, buffer_frame_size = 2\<rparr> \<and>
   RecordAccess
     \<lparr>curr_size = 0, replacer_size = 2, lru_k = 3,
       history_list = [\<lparr>frame_id = 1, access_times = 1, evictable = False\<rparr>,
                       \<lparr>frame_id = 0, access_times = 1, evictable = False\<rparr>],
       history_frames = {0, 1}, history_frame_size = 2,
       buffer_list = [], buffer_frames = {}, buffer_frame_size = 0\<rparr> 0 =
     Some \<lparr>curr_size = 0, replacer_size = 2, lru_k = 3,
            history_list = [\<lparr>frame_id = 0, access_times = 2, evictable = False\<rparr>,
                            \<lparr>frame_id = 1, access_times = 1, evictable = False\<rparr>],
            history_frames = {0, 1}, history_frame_size = 2,
            buffer_list = [], buffer_frames = {}, buffer_frame_size = 0\<rparr>"
proof -
  let ?new = "LRUKReplacer_init 2 2"
  let ?new1 = "LRUKReplacer_init 2 1"
  let ?full = "\<lparr>curr_size = 0, replacer_size = 1, lru_k = 2,
       history_list = [\<lparr>frame_id = 0, access_times = 1, evictable = False\<rparr>],
       history_frames = {0}, history_frame_size = 1,
       buffer_list = [], buffer_frames = {}, buffer_frame_size = 0\<rparr>"
  let ?reach = "\<lparr>curr_size = 0, replacer_size = 2, lru_k = 2,
       history_list = [\<lparr>frame_id = 0, access_times = 1, evictable = False\<rparr>],
       history_frames = {0}, history_frame_size = 1,
       buffer_list = [], buffer_frames = {}, buffer_frame_size = 0\<rparr>"
  let ?above = "\<lparr>curr_size = 0, replacer_size = 2, lru_k = 2,
       history_list = [], history_frames = {}, history_frame_size = 0,
       buffer_list = [\<lparr>frame_id = 1, access_times = 2, evictable = False\<rparr>,
                      \<lparr>frame_id = 0, access_times = 2, evictable = False\<rparr>],
       buffer_frames = {0, 1}, buffer_frame_size = 2\<rparr>"
  let ?below = "\<lparr>curr_size = 0, replacer_size = 2, lru_k = 3,
       history_list = [\<lparr>frame_id = 1, access_times = 1, evictable = False\<rparr>,
                       \<lparr>frame_id = 0, access_times = 1, evictable = False\<rparr>],
       history_frames = {0, 1}, history_frame_size = 2,
       buffer_list = [], buffer_frames = {}, buffer_frame_size = 0\<rparr>"
  have i: "lruk_inv ?new" "lruk_inv ?new1" "lruk_inv ?full" "lruk_inv ?reach" "lruk_inv ?above"
    "lruk_inv ?below"
    by (auto simp: lruk_inv_def LRUKReplacer_init_def)
  have o: "frame_id_ok ?new 0" "frame_id_ok ?new1 0" "frame_id_ok ?full 1" "frame_id_ok ?reach 0"
    "frame_id_ok ?above 0" "frame_id_ok ?below 0"
    by (simp_all add: frame_id_ok_def LRUKReplacer_init_def)
  from RecordAccess_moves_node [OF i(1) o(1)] have 1: "RecordAccess ?new 0 =
     Some \<lparr>curr_size = 0, replacer_size = 2, lru_k = 2,
            history_list = [\<lparr>frame_id = 0, access_times = 1, evictable = False\<rparr>],
            history_frames = {0}, history_frame_size = 1,
            buffer_list = [], buffer_frames = {}, buffer_frame_size = 0\<rparr>"
    by (simp add: tracked_def num_tracked_def LRUKReplacer_init_def)
  from RecordAccess_moves_node [OF i(2) o(2)] have 2: "RecordAccess ?new1 0 =
     Some \<lparr>curr_size = 0, replacer_size = 2, lru_k = 1,
            history_list = [], history_frames = {}, history_frame_size = 0,
            buffer_list = [\<lparr>frame_id = 0, access_times = 1, evictable = False\<rparr>],
            buffer_frames = {0}, buffer_frame_size = 1\<rparr>"
    by (simp add: tracked_def num_tracked_def LRUKReplacer_init_def)
  from RecordAccess_moves_node [OF i(3) o(3)] have 3: "RecordAccess ?full 1 = Some ?full"
    by (simp add: tracked_def num_tracked_def)
  from RecordAccess_moves_node [OF i(4) o(4)] have 4: "RecordAccess ?reach 0 =
     Some \<lparr>curr_size = 0, replacer_size = 2, lru_k = 2,
            history_list = [], history_frames = {}, history_frame_size = 0,
            buffer_list = [\<lparr>frame_id = 0, access_times = 2, evictable = False\<rparr>],
            buffer_frames = {0}, buffer_frame_size = 1\<rparr>"
    by (simp add: node_of_def unlink_def)
  from RecordAccess_moves_node [OF i(5) o(5)] have 5: "RecordAccess ?above 0 =
     Some \<lparr>curr_size = 0, replacer_size = 2, lru_k = 2,
            history_list = [], history_frames = {}, history_frame_size = 0,
            buffer_list = [\<lparr>frame_id = 0, access_times = 3, evictable = False\<rparr>,
                           \<lparr>frame_id = 1, access_times = 2, evictable = False\<rparr>],
            buffer_frames = {0, 1}, buffer_frame_size = 2\<rparr>"
    by (simp add: node_of_def unlink_def)
  from RecordAccess_moves_node [OF i(6) o(6)] have 6: "RecordAccess ?below 0 =
     Some \<lparr>curr_size = 0, replacer_size = 2, lru_k = 3,
            history_list = [\<lparr>frame_id = 0, access_times = 2, evictable = False\<rparr>,
                            \<lparr>frame_id = 1, access_times = 1, evictable = False\<rparr>],
            history_frames = {0, 1}, history_frame_size = 2,
            buffer_list = [], buffer_frames = {}, buffer_frame_size = 0\<rparr>"
    by (simp add: node_of_def unlink_def)
  from 1 2 3 4 5 6 show ?thesis
    by (simp only: LRUKReplacer_init_def)
qed

text \<open>
  C2, as amended. In every state of the replacer that satisfies its invariant, \<open>Evict\<close>
  returns the tail-most evictable node of the history list if there is one and otherwise
  the tail-most evictable node of the cache list, takes the node out of its list and its
  map and one from \<open>Size()\<close>, and returns false exactly when no tracked frame is
  evictable. The scenario, with \<open>k_ = 3\<close>, a replacer size \<open>n\<close> of at least 2 and two
  distinct frame ids \<open>A\<close> and \<open>B\<close> that pass the range assert:
    \<^item> after three accesses to \<open>A\<close> and one to \<open>B\<close>, once both frames have been marked
      evictable, \<open>Evict\<close> yields \<open>B\<close>, and \<open>B\<close> is not tracked any more: its access count
      has gone with its node;
    \<^item> after two more accesses to \<open>B\<close> and one more to \<open>A\<close>, the history list holds \<open>B\<close>
      alone, tracked anew with two accesses and not evictable, and the cache list holds
      \<open>A\<close> alone;
    \<^item> once \<open>B\<close> has been marked evictable again, \<open>Evict\<close> yields \<open>B\<close>, the evictable node
      of the history list, and not \<open>A\<close>;
    \<^item> while \<open>B\<close> is left not evictable, \<open>Evict\<close> yields \<open>A\<close>, the only evictable frame.
\<close>

theorem Evict_tail_most_evictable:
  assumes inv: "lruk_inv r"
  shows
    "(\<forall>xs n ys. history_list r = xs @ n # ys \<and> evictable n \<and> \<not> list_ex evictable ys \<longrightarrow>
        Evict r out =
          Some (True, frame_id n,
            r\<lparr>history_list := xs @ ys,
              history_frames := history_frames r - {frame_id n},
              history_frame_size := history_frame_size r - 1,
              curr_size := curr_size r - 1\<rparr>)) \<and>
     (\<forall>xs n ys. \<not> list_ex evictable (history_list r) \<and> buffer_list r = xs @ n # ys \<and>
          evictable n \<and> \<not> list_ex evictable ys \<longrightarrow>
        Evict r out =
          Some (True, frame_id n,
            r\<lparr>buffer_list := xs @ ys,
              buffer_frames := buffer_frames r - {frame_id n},
              buffer_frame_size := buffer_frame_size r - 1,
              curr_size := curr_size r - 1\<rparr>)) \<and>
     ((Evict r out = Some (False, out, r)) = (\<not> list_ex evictable (history_list r @ buffer_list r))) \<and>
     (\<forall>f r'. Evict r out = Some (True, f, r') \<longrightarrow>
        is_evictable r f \<and> \<not> tracked r' f \<and> node_of r' f = None \<and>
        Size r \<noteq> 0 \<and> unat (Size r') = unat (Size r) - 1 \<and> lruk_inv r') \<and>
     (\<exists>b f r'. Evict r out = Some (b, f, r')) \<and>
     (\<forall>A B n. A \<noteq> B \<and> word_of_int A \<le> n \<and> word_of_int B \<le> n \<and> 1 < n \<longrightarrow>
        do {
          r1 \<leftarrow> RecordAccess (LRUKReplacer_init n 3) A;
          r2 \<leftarrow> RecordAccess r1 A;
          r3 \<leftarrow> RecordAccess r2 A;
          r4 \<leftarrow> RecordAccess r3 B;
          r5 \<leftarrow> SetEvictable r4 A True;
          r6 \<leftarrow> SetEvictable r5 B True;
          (b1, f1, r7) \<leftarrow> Evict r6 out;
          r8 \<leftarrow> RecordAccess r7 B;
          r9 \<leftarrow> RecordAccess r8 B;
          r10 \<leftarrow> RecordAccess r9 A;
          r11 \<leftarrow> SetEvictable r10 B True;
          (b2, f2, r12) \<leftarrow> Evict r11 out;
          (b3, f3, r13) \<leftarrow> Evict r10 out;
          Some (b1, f1, tracked r7 B, history_list r10, buffer_list r10, b2, f2, b3, f3)
        } = Some (True, B, False,
              [\<lparr>frame_id = B, access_times = 2, evictable = False\<rparr>],
              [\<lparr>frame_id = A, access_times = 4, evictable = True\<rparr>],
              True, B, True, A))"
  using Evict_general [OF inv, of out] scenario_symbolic [of _ _ _ out] by simp

theorem Evict_tail_most_evictable_witness:
  "Evict
     \<lparr>curr_size = 2, replacer_size = 7, lru_k = 3,
       history_list = [\<lparr>frame_id = 2, access_times = 1, evictable = True\<rparr>],
       history_frames = {2}, history_frame_size = 1,
       buffer_list = [\<lparr>frame_id = 1, access_times = 3, evictable = True\<rparr>],
       buffer_frames = {1}, buffer_frame_size = 1\<rparr> 0 =
     Some (True, 2,
       \<lparr>curr_size = 1, replacer_size = 7, lru_k = 3,
         history_list = [], history_frames = {}, history_frame_size = 0,
         buffer_list = [\<lparr>frame_id = 1, access_times = 3, evictable = True\<rparr>],
         buffer_frames = {1}, buffer_frame_size = 1\<rparr>) \<and>
   Evict
     \<lparr>curr_size = 1, replacer_size = 7, lru_k = 3,
       history_list = [\<lparr>frame_id = 2, access_times = 2, evictable = False\<rparr>],
       history_frames = {2}, history_frame_size = 1,
       buffer_list = [\<lparr>frame_id = 1, access_times = 4, evictable = True\<rparr>],
       buffer_frames = {1}, buffer_frame_size = 1\<rparr> 0 =
     Some (True, 1,
       \<lparr>curr_size = 0, replacer_size = 7, lru_k = 3,
         history_list = [\<lparr>frame_id = 2, access_times = 2, evictable = False\<rparr>],
         history_frames = {2}, history_frame_size = 1,
         buffer_list = [], buffer_frames = {}, buffer_frame_size = 0\<rparr>) \<and>
   Evict (LRUKReplacer_init 7 3) 5 = Some (False, 5, LRUKReplacer_init 7 3) \<and>
   do {
     r1 \<leftarrow> RecordAccess (LRUKReplacer_init 7 3) 1;
     r2 \<leftarrow> RecordAccess r1 1;
     r3 \<leftarrow> RecordAccess r2 1;
     r4 \<leftarrow> RecordAccess r3 2;
     r5 \<leftarrow> SetEvictable r4 1 True;
     r6 \<leftarrow> SetEvictable r5 2 True;
     (b1, f1, r7) \<leftarrow> Evict r6 0;
     r8 \<leftarrow> RecordAccess r7 2;
     r9 \<leftarrow> RecordAccess r8 2;
     r10 \<leftarrow> RecordAccess r9 1;
     r11 \<leftarrow> SetEvictable r10 2 True;
     (b2, f2, r12) \<leftarrow> Evict r11 0;
     (b3, f3, r13) \<leftarrow> Evict r10 0;
     Some (b1, f1, tracked r7 2, history_list r10, buffer_list r10, b2, f2, b3, f3)
   } = Some (True, 2, False,
         [\<lparr>frame_id = 2, access_times = 2, evictable = False\<rparr>],
         [\<lparr>frame_id = 1, access_times = 4, evictable = True\<rparr>],
         True, 2, True, 1)"
proof -
  let ?a = "\<lparr>curr_size = 2, replacer_size = 7, lru_k = 3,
       history_list = [\<lparr>frame_id = 2, access_times = 1, evictable = True\<rparr>],
       history_frames = {2}, history_frame_size = 1,
       buffer_list = [\<lparr>frame_id = 1, access_times = 3, evictable = True\<rparr>],
       buffer_frames = {1}, buffer_frame_size = 1\<rparr>"
  let ?b = "\<lparr>curr_size = 1, replacer_size = 7, lru_k = 3,
       history_list = [\<lparr>frame_id = 2, access_times = 2, evictable = False\<rparr>],
       history_frames = {2}, history_frame_size = 1,
       buffer_list = [\<lparr>frame_id = 1, access_times = 4, evictable = True\<rparr>],
       buffer_frames = {1}, buffer_frame_size = 1\<rparr>"
  have i: "lruk_inv ?a" "lruk_inv ?b" "lruk_inv (LRUKReplacer_init 7 3)"
    by (simp_all add: lruk_inv_def LRUKReplacer_init_def)
  from Evict_tail_most_evictable [OF i(1), of 0, THEN conjunct1, rule_format,
      of "[]" "\<lparr>frame_id = 2, access_times = 1, evictable = True\<rparr>" "[]"]
  have 1: "Evict ?a 0 =
     Some (True, 2,
       \<lparr>curr_size = 1, replacer_size = 7, lru_k = 3,
         history_list = [], history_frames = {}, history_frame_size = 0,
         buffer_list = [\<lparr>frame_id = 1, access_times = 3, evictable = True\<rparr>],
         buffer_frames = {1}, buffer_frame_size = 1\<rparr>)"
    by simp
  from Evict_tail_most_evictable [OF i(2), of 0, THEN conjunct2, THEN conjunct1, rule_format,
      of "[]" "\<lparr>frame_id = 1, access_times = 4, evictable = True\<rparr>" "[]"]
  have 2: "Evict ?b 0 =
     Some (True, 1,
       \<lparr>curr_size = 0, replacer_size = 7, lru_k = 3,
         history_list = [\<lparr>frame_id = 2, access_times = 2, evictable = False\<rparr>],
         history_frames = {2}, history_frame_size = 1,
         buffer_list = [], buffer_frames = {}, buffer_frame_size = 0\<rparr>)"
    by simp
  from Evict_tail_most_evictable [OF i(3), of 5]
  have 3: "Evict (LRUKReplacer_init 7 3) 5 = Some (False, 5, LRUKReplacer_init 7 3)"
    by (simp add: LRUKReplacer_init_def)
  from Evict_tail_most_evictable [OF i(3), of 0, THEN conjunct2, THEN conjunct2, THEN conjunct2,
      THEN conjunct2, THEN conjunct2, rule_format, of 1 2 7]
  have 4: "do {
     r1 \<leftarrow> RecordAccess (LRUKReplacer_init 7 3) 1;
     r2 \<leftarrow> RecordAccess r1 1;
     r3 \<leftarrow> RecordAccess r2 1;
     r4 \<leftarrow> RecordAccess r3 2;
     r5 \<leftarrow> SetEvictable r4 1 True;
     r6 \<leftarrow> SetEvictable r5 2 True;
     (b1, f1, r7) \<leftarrow> Evict r6 0;
     r8 \<leftarrow> RecordAccess r7 2;
     r9 \<leftarrow> RecordAccess r8 2;
     r10 \<leftarrow> RecordAccess r9 1;
     r11 \<leftarrow> SetEvictable r10 2 True;
     (b2, f2, r12) \<leftarrow> Evict r11 0;
     (b3, f3, r13) \<leftarrow> Evict r10 0;
     Some (b1, f1, tracked r7 2, history_list r10, buffer_list r10, b2, f2, b3, f3)
   } = Some (True, 2, False,
         [\<lparr>frame_id = 2, access_times = 2, evictable = False\<rparr>],
         [\<lparr>frame_id = 1, access_times = 4, evictable = True\<rparr>],
         True, 2, True, 1)"
    by simp
  from 1 2 3 4 show ?thesis
    by (simp only: simp_thms)
qed

text \<open>
  The scenario of C2 as it is stated, for \<open>k_ = 3\<close>, frames \<open>A = 1\<close> and \<open>B = 2\<close> and a
  replacer of size 7. With both frames marked evictable, the first \<open>Evict\<close> yields \<open>B\<close>
  and deletes its node, so the two further accesses to \<open>B\<close> count from one again: \<open>B\<close> is
  in the history list with two accesses, \<open>A\<close> in the cache list with four, and the second
  \<open>Evict\<close> yields \<open>B\<close> again where the claim says \<open>A\<close>. With no frame marked evictable,
  as the node constructor leaves them, the first \<open>Evict\<close> already returns false.
\<close>

theorem Evict_scenario_counterexample:
  "do {
     r1 \<leftarrow> RecordAccess (LRUKReplacer_init 7 3) 1;
     r2 \<leftarrow> RecordAccess r1 1;
     r3 \<leftarrow> RecordAccess r2 1;
     r4 \<leftarrow> RecordAccess r3 2;
     r5 \<leftarrow> SetEvictable r4 1 True;
     r6 \<leftarrow> SetEvictable r5 2 True;
     (b1, f1, r7) \<leftarrow> Evict r6 (- 1);
     r8 \<leftarrow> RecordAccess r7 2;
     r9 \<leftarrow> RecordAccess r8 2;
     r10 \<leftarrow> RecordAccess r9 1;
     r11 \<leftarrow> SetEvictable r10 2 True;
     (b2, f2, r12) \<leftarrow> Evict r11 (- 1);
     Some (b1, f1, r7, r11, b2, f2)
   } =
     Some (True, 2,
       \<lparr>curr_size = 1, replacer_size = 7, lru_k = 3,
         history_list = [], history_frames = {}, history_frame_size = 0,
         buffer_list = [\<lparr>frame_id = 1, access_times = 3, evictable = True\<rparr>],
         buffer_frames = {1}, buffer_frame_size = 1\<rparr>,
       \<lparr>curr_size = 2, replacer_size = 7, lru_k = 3,
         history_list = [\<lparr>frame_id = 2, access_times = 2, evictable = True\<rparr>],
         history_frames = {2}, history_frame_size = 1,
         buffer_list = [\<lparr>frame_id = 1, access_times = 4, evictable = True\<rparr>],
         buffer_frames = {1}, buffer_frame_size = 1\<rparr>,
       True, 2) \<and>
   do {
     r1 \<leftarrow> RecordAccess (LRUKReplacer_init 7 3) 1;
     r2 \<leftarrow> RecordAccess r1 1;
     r3 \<leftarrow> RecordAccess r2 1;
     r4 \<leftarrow> RecordAccess r3 2;
     (b1, f1, r5) \<leftarrow> Evict r4 (- 1);
     Some (r4, b1, f1)
   } =
     Some (
       \<lparr>curr_size = 0, replacer_size = 7, lru_k = 3,
         history_list = [\<lparr>frame_id = 2, access_times = 1, evictable = False\<rparr>],
         history_frames = {2}, history_frame_size = 1,
         buffer_list = [\<lparr>frame_id = 1, access_times = 3, evictable = False\<rparr>],
         buffer_frames = {1}, buffer_frame_size = 1\<rparr>,
       False, - 1)"
  by (simp add: lruk_eval)

section \<open>The buffer pool manager: pinned frames\<close>

lemma UpdateFrameInfo_SomeE:
  assumes "UpdateFrameInfo s f pin = Some s'"
  obtains r1 r2 where "RecordAccess (replacer s) f = Some r1"
    and "if pin = 1 then SetEvictable r1 f False = Some r2 else r2 = r1"
    and "s' = s\<lparr>replacer := r2\<rparr>"
  using assms by (auto simp: UpdateFrameInfo_def split: option.splits if_splits)

lemma UnpinFrame_SomeE:
  assumes "UnpinFrame s f = Some s'"
  obtains r where "0 < pin_count (pages s ! nat f)"
    and "if pin_count (pages s ! nat f) - 1 = 0 then SetEvictable (replacer s) f True = Some r
         else r = replacer s"
    and "s' = s\<lparr>pages := (pages s)[nat f := (pages s ! nat f)\<lparr>pin_count := pin_count (pages s ! nat f) - 1\<rparr>],
                replacer := r\<rparr>"
  using assms by (auto simp: UnpinFrame_def Let_def split: option.splits if_splits)

lemma GetVictimPage_SomeE:
  assumes "GetVictimPage s = Some (f, s')"
  obtains (free) rest where "free_list s = f # rest" "frame_ok s f"
      "page_id (pages s ! nat f) = INVALID_PAGE_ID" "s' = s\<lparr>free_list := rest\<rparr>"
  | (evict) b r where "free_list s = []" "Evict (replacer s) INVALID_FRAME_ID = Some (b, f, r)"
      "s' = s\<lparr>replacer := r\<rparr>"
  using assms by (auto simp: GetVictimPage_def split: list.splits option.splits if_splits)

lemma ResetPage_SomeE:
  assumes "ResetPage h s f = Some (b, s')"
  obtains (empty) "page_id (pages s ! nat f) = INVALID_PAGE_ID" "b" "s' = s"
  | (removed) pt where "page_id (pages s ! nat f) \<noteq> INVALID_PAGE_ID"
      "HT_Remove h (page_table s) (page_id (pages s ! nat f)) = Some (True, pt)" "b"
      "s' = s\<lparr>page_table := pt,
                disk_pages :=
                  (if is_dirty (pages s ! nat f)
                   then WritePage (disk_pages s) (page_id (pages s ! nat f)) (data (pages s ! nat f))
                   else disk_pages s),
                pages := (pages s)[nat f :=
                  ResetMemory ((pages s ! nat f)\<lparr>is_dirty := False, page_id := INVALID_PAGE_ID,
                                       pin_count := 0\<rparr>)]\<rparr>"
  | (absent) pt where "page_id (pages s ! nat f) \<noteq> INVALID_PAGE_ID"
      "HT_Remove h (page_table s) (page_id (pages s ! nat f)) = Some (False, pt)" "\<not> b"
      "s' = s\<lparr>page_table := pt\<rparr>"
  using assms by (auto simp: ResetPage_def Let_def split: option.splits if_splits)

lemma InitPage_SomeE:
  assumes "InitPage h s f p = Some s'"
  obtains pt where "page_id (pages s ! nat f) = INVALID_PAGE_ID" "\<not> is_dirty (pages s ! nat f)"
    "pin_count (pages s ! nat f) = 0" "HT_Insert h (page_table s) p f = Some pt"
    "s' = s\<lparr>pages := (pages s)[nat f := (pages s ! nat f)\<lparr>page_id := p, pin_count := 1\<rparr>],
              page_table := pt\<rparr>"
  using assms by (auto simp: InitPage_def Let_def split: option.splits if_splits)

lemma NewPgImp_SomeE:
  assumes "NewPgImp h s = Some (res, s')"
  obtains (none) "GetVictimPage s = Some (INVALID_FRAME_ID, s')" "res = None"
  | (page) f s1 reset s3 s4 where "GetVictimPage s = Some (f, s1)" "f \<noteq> INVALID_FRAME_ID"
      "frame_ok s1 f"
      "ResetPage h (s1\<lparr>next_page_id := next_id (next_page_id s1)\<rparr>) f = Some (reset, s3)"
      "InitPage h s3 f (next_page_id s1) = Some s4"
      "UpdateFrameInfo s4 f (pin_count (pages s4 ! nat f)) = Some s'"
      "res = Some (next_page_id s1, f)"
  using assms
  by (auto simp: NewPgImp_def AllocatePage_def bind_eq_Some_conv split: if_splits)

lemma FetchPgImp_SomeE:
  assumes "FetchPgImp h s p = Some (res, s')"
  obtains (hit) f where "HT_Find h (page_table s) p = Some (Some f)" "frame_ok s f"
      "pin_count (pages s ! nat f) \<noteq> 2 ^ 31 - 1"
      "UpdateFrameInfo
         (s\<lparr>pages := (pages s)[nat f := (pages s ! nat f)\<lparr>pin_count := pin_count (pages s ! nat f) + 1\<rparr>]\<rparr>)
         f (pin_count (pages s ! nat f) + 1) = Some s'"
      "res = Some f"
  | (none) "HT_Find h (page_table s) p = Some None" "GetVictimPage s = Some (INVALID_FRAME_ID, s')"
      "res = None"
  | (miss) f s1 reset s2 s3 where "HT_Find h (page_table s) p = Some None"
      "GetVictimPage s = Some (f, s1)" "f \<noteq> INVALID_FRAME_ID" "frame_ok s1 f"
      "ResetPage h s1 f = Some (reset, s2)" "InitPage h s2 f p = Some s3"
      "UpdateFrameInfo
         (s3\<lparr>pages := (pages s3)[nat f := (pages s3 ! nat f)\<lparr>data := ReadPage (disk_pages s3) p\<rparr>]\<rparr>)
         f (pin_count ((pages s3)[nat f := (pages s3 ! nat f)\<lparr>data := ReadPage (disk_pages s3) p\<rparr>] ! nat f))
       = Some s'"
      "res = Some f"
proof -
  from assms obtain found where f: "HT_Find h (page_table s) p = Some found"
    by (auto simp: FetchPgImp_def bind_eq_Some_conv)
  show thesis
  proof (cases found)
    case None
    with assms f show thesis
      by (auto simp: FetchPgImp_def bind_eq_Some_conv Let_def split: if_splits intro: none miss)
  next
    case (Some g)
    with assms f show thesis
      by (auto simp: FetchPgImp_def bind_eq_Some_conv Let_def split: if_splits intro: hit)
  qed
qed

lemma UnpinPgImp_SomeE:
  assumes "UnpinPgImp h s p dirty = Some (res, s')"
  obtains (absent) "HT_Find h (page_table s) p = Some None" "\<not> res" "s' = s"
  | (unpinned) f where "HT_Find h (page_table s) p = Some (Some f)" "frame_ok s f"
      "page_id (pages s ! nat f) = p" "pin_count (pages s ! nat f) = 0" "\<not> res" "s' = s"
  | (pinned) f s1 where "HT_Find h (page_table s) p = Some (Some f)" "frame_ok s f"
      "page_id (pages s ! nat f) = p" "pin_count (pages s ! nat f) \<noteq> 0"
      "UnpinFrame s f = Some s1" "res"
      "s' = (if dirty then s1\<lparr>pages := (pages s1)[nat f := (pages s1 ! nat f)\<lparr>is_dirty := True\<rparr>]\<rparr>
             else s1)"
proof -
  from assms obtain found where f: "HT_Find h (page_table s) p = Some found"
    by (auto simp: UnpinPgImp_def bind_eq_Some_conv split: if_splits)
  show thesis
  proof (cases found)
    case None
    with assms f show thesis
      by (auto simp: UnpinPgImp_def bind_eq_Some_conv Let_def split: if_splits intro: absent unpinned pinned)
  next
    case (Some g)
    with assms f show thesis
      by (auto simp: UnpinPgImp_def bind_eq_Some_conv Let_def split: if_splits intro: absent unpinned pinned)
  qed
qed

lemma FlushPgImp_SomeE:
  assumes "FlushPgImp h s p = Some (res, s')"
  obtains (sentinel) "p = INVALID_PAGE_ID" "\<not> res" "s' = s"
  | (absent) "p \<noteq> INVALID_PAGE_ID" "HT_Find h (page_table s) p = Some None" "\<not> res" "s' = s"
  | (flushed) f where "p \<noteq> INVALID_PAGE_ID" "HT_Find h (page_table s) p = Some (Some f)"
      "frame_ok s f" "page_id (pages s ! nat f) = p" "res"
      "s' = s\<lparr>disk_pages := WritePage (disk_pages s) p (data (pages s ! nat f)),
                pages := (pages s)[nat f := (pages s ! nat f)\<lparr>is_dirty := False\<rparr>]\<rparr>"
proof (cases "p = INVALID_PAGE_ID")
  case True
  with assms show thesis
    by (auto simp: FlushPgImp_def intro: sentinel)
next
  case ns: False
  with assms obtain found where f: "HT_Find h (page_table s) p = Some found"
    by (auto simp: FlushPgImp_def bind_eq_Some_conv split: if_splits)
  show thesis
  proof (cases found)
    case None
    with assms f ns show thesis
      by (auto simp: FlushPgImp_def bind_eq_Some_conv Let_def split: if_splits intro: absent)
  next
    case (Some g)
    with assms f ns show thesis
      by (auto simp: FlushPgImp_def bind_eq_Some_conv Let_def split: if_splits intro: flushed)
  qed
qed

lemma DeletePgImp_SomeE:
  assumes "DeletePgImp h s p = Some (res, s')"
  obtains (absent) "HT_Find h (page_table s) p = Some None" "res" "s' = s"
  | (pinned) f where "HT_Find h (page_table s) p = Some (Some f)" "frame_ok s f"
      "0 < pin_count (pages s ! nat f)" "\<not> res" "s' = s"
  | (deleted) f s1 r where "HT_Find h (page_table s) p = Some (Some f)" "frame_ok s f"
      "\<not> 0 < pin_count (pages s ! nat f)" "ResetPage h s f = Some (True, s1)"
      "Remove (replacer s1) f = Some r" "res"
      "s' = DeallocatePage (s1\<lparr>replacer := r, free_list := free_list s1 @ [f]\<rparr>) p"
  | (failed) f where "HT_Find h (page_table s) p = Some (Some f)" "frame_ok s f"
      "\<not> 0 < pin_count (pages s ! nat f)" "ResetPage h s f = Some (False, s')" "\<not> res"
proof -
  from assms obtain found where f: "HT_Find h (page_table s) p = Some found"
    by (auto simp: DeletePgImp_def bind_eq_Some_conv split: if_splits)
  show thesis
  proof (cases found)
    case None
    with assms f show thesis
      by (auto simp: DeletePgImp_def bind_eq_Some_conv Let_def split: if_splits intro: absent pinned deleted failed)
  next
    case (Some g)
    with assms f show thesis
      by (auto simp: DeletePgImp_def bind_eq_Some_conv Let_def split: if_splits intro: absent pinned deleted failed)
  qed
qed

lemma pins_ok_replacer:
  assumes "pins_ok ps r" and "lruk_wf r'" and "\<And>g. is_evictable r' g \<Longrightarrow> is_evictable r g"
  shows "pins_ok ps r'"
  using assms unfolding pins_ok_def by blast

lemma pins_ok_update:
  assumes ok: "pins_ok ps r"
    and pg: "i < length ps \<Longrightarrow> 0 \<le> pin_count pg \<and> (0 < pin_count pg \<longrightarrow> \<not> is_evictable r (int i))"
  shows "pins_ok (ps[i := pg]) r"
proof -
  have "0 \<le> pin_count (ps[i := pg] ! j) \<and>
      (0 < pin_count (ps[i := pg] ! j) \<longrightarrow> \<not> is_evictable r (int j))"
    if j: "j < length (ps[i := pg])" for j
  proof (cases "j = i")
    case True
    with j pg show ?thesis by simp
  next
    case False
    with j ok show ?thesis by (simp add: pins_ok_def)
  qed
  with ok show ?thesis
    by (simp add: pins_ok_def)
qed

lemma pins_ok_unpinned:
  assumes "pins_ok ps r" and "pin_count pg = 0"
  shows "pins_ok (ps[i := pg]) r"
  using assms(2) by (intro pins_ok_update [OF assms(1)]) simp

lemma pins_ok_same_pin:
  assumes "pins_ok ps r" and "i < length ps \<Longrightarrow> pin_count pg = pin_count (ps ! i)"
  shows "pins_ok (ps[i := pg]) r"
  using assms by (intro pins_ok_update [OF assms(1)]) (simp add: pins_ok_def)

lemma pins_ok_pinned:
  assumes "pins_ok ps r" and "0 \<le> pin_count pg" and "\<not> is_evictable r (int i)"
  shows "pins_ok (ps[i := pg]) r"
  using assms(2,3) by (intro pins_ok_update [OF assms(1)]) simp

lemma pins_ok_init: "pins_ok (replicate n Page_init) (LRUKReplacer_init m k)"
  by (simp add: pins_ok_def lruk_wf_init Page_init_def)

text \<open>The replacer after \<open>UpdateFrameInfo\<close>.\<close>

lemma UpdateFrameInfo_replacer:
  assumes u: "UpdateFrameInfo s f pin = Some s'" and wf: "lruk_wf (replacer s)"
  shows "lruk_wf (replacer s')"
    and "\<And>g. is_evictable (replacer s') g \<Longrightarrow> is_evictable (replacer s) g"
    and "pin = 1 \<Longrightarrow> \<not> is_evictable (replacer s') f"
    and "s' = s\<lparr>replacer := replacer s'\<rparr>"
proof -
  from u obtain r1 r2 where ra: "RecordAccess (replacer s) f = Some r1"
    and se: "if pin = 1 then SetEvictable r1 f False = Some r2 else r2 = r1"
    and s': "s' = s\<lparr>replacer := r2\<rparr>"
    by (rule UpdateFrameInfo_SomeE)
  note w1 = RecordAccess_wf [OF wf ra]
  show "s' = s\<lparr>replacer := replacer s'\<rparr>"
    by (simp add: s')
  show "lruk_wf (replacer s')"
    using se w1(1) SetEvictable_wf(1) [OF w1(1), of f False r2] by (auto simp: s' split: if_splits)
  show "pin = 1 \<Longrightarrow> \<not> is_evictable (replacer s') f"
    using se SetEvictable_wf(3) [OF w1(1), of f False r2] by (simp add: s')
  show "is_evictable (replacer s) g" if "is_evictable (replacer s') g" for g
  proof (cases "pin = 1")
    case False
    with se that w1(2) show ?thesis
      by (simp add: s')
  next
    case True
    with se have se': "SetEvictable r1 f False = Some r2"
      by simp
    show ?thesis
    proof (cases "g = f")
      case True
      with that SetEvictable_wf(3) [OF w1(1) se'] show ?thesis
        by (simp add: s')
    next
      case False
      with that SetEvictable_wf(2) [OF w1(1) se', of g] w1(2) show ?thesis
        by (simp add: s')
    qed
  qed
qed

lemma pins_ok_install:
  assumes ok: "pins_ok ps (replacer s)" and u: "UpdateFrameInfo s f 1 = Some s'"
    and f: "0 \<le> f" and pg: "pin_count pg = 1"
  shows "pins_ok (ps[nat f := pg]) (replacer s')"
proof -
  from ok have wf: "lruk_wf (replacer s)"
    by (simp add: pins_ok_def)
  note r = UpdateFrameInfo_replacer [OF u wf]
  from ok r(1,2) have "pins_ok ps (replacer s')"
    by (rule pins_ok_replacer)
  moreover from r(3) f have "\<not> is_evictable (replacer s') (int (nat f))"
    by simp
  ultimately show ?thesis
    using pg by (intro pins_ok_pinned) simp_all
qed

lemma GetVictimPage_pins:
  assumes "GetVictimPage s = Some (f, s')" and "pins_inv s"
  shows "pins_inv s' \<and> pages s' = pages s"
  using assms(1)
proof (cases rule: GetVictimPage_SomeE)
  case (free rest)
  with assms(2) show ?thesis
    by (simp add: pins_inv_def)
next
  case (evict b r)
  from assms(2) have wf: "lruk_wf (replacer s)"
    by (simp add: pins_inv_def pins_ok_def)
  note w = Evict_wf [OF wf evict(2)]
  from assms(2) have "pins_ok (pages s) (replacer s)"
    by (simp add: pins_inv_def)
  from this w(1) have "pins_ok (pages s) r"
    by (rule pins_ok_replacer) (use w(2) in simp)
  with evict show ?thesis
    by (simp add: pins_inv_def)
qed

lemma ResetPage_pins:
  assumes "ResetPage h s f = Some (b, s')" and "pins_inv s"
  shows "pins_inv s'"
  using assms(1)
proof (cases rule: ResetPage_SomeE)
  case empty
  with assms(2) show ?thesis by simp
next
  case (removed pt)
  with assms(2) show ?thesis
    by (simp add: pins_inv_def pins_ok_unpinned ResetMemory_def)
next
  case (absent pt)
  with assms(2) show ?thesis
    by (simp add: pins_inv_def)
qed

lemma install_pins:
  assumes i: "InitPage h s f p = Some s1" and f: "frame_ok s f" and inv: "pins_inv s"
    and u: "UpdateFrameInfo (s1\<lparr>pages := (pages s1)[nat f := (pages s1 ! nat f)\<lparr>data := d\<rparr>]\<rparr>) f
              (pin_count ((pages s1)[nat f := (pages s1 ! nat f)\<lparr>data := d\<rparr>] ! nat f)) = Some s'"
  shows "pins_inv s'"
proof -
  from i obtain pt where
    s1: "s1 = s\<lparr>pages := (pages s)[nat f := (pages s ! nat f)\<lparr>page_id := p, pin_count := 1\<rparr>],
              page_table := pt\<rparr>"
    by (rule InitPage_SomeE)
  from f have r: "0 \<le> f" "nat f < length (pages s)"
    by (simp_all add: frame_ok_def)
  let ?pg = "(pages s ! nat f)\<lparr>page_id := p, pin_count := 1, data := d\<rparr>"
  let ?s = "s1\<lparr>pages := (pages s1)[nat f := (pages s1 ! nat f)\<lparr>data := d\<rparr>]\<rparr>"
  from r have p: "pages ?s = (pages s)[nat f := ?pg]" and rr: "replacer ?s = replacer s"
    by (simp_all add: s1)
  from u r have u': "UpdateFrameInfo ?s f 1 = Some s'"
    by (simp add: s1)
  from inv have "pins_ok (pages s) (replacer ?s)"
    by (simp add: pins_inv_def rr)
  from pins_ok_install [OF this u' r(1), of ?pg]
  have "pins_ok ((pages s)[nat f := ?pg]) (replacer s')"
    by simp
  moreover from u' have "pages s' = pages ?s"
    by (rule UpdateFrameInfo_SomeE) simp
  ultimately show ?thesis
    by (simp add: pins_inv_def p)
qed

lemma pins_inv_init: "pins_inv (BufferPoolManagerInstance_init n b k d)"
  by (simp add: pins_inv_def BufferPoolManagerInstance_init_def pins_ok_init)

lemma ResetPage_frame_ok:
  assumes "ResetPage h s f = Some (b, s')"
  shows "frame_ok s' g = frame_ok s g"
  using assms by (cases rule: ResetPage_SomeE) (simp_all add: frame_ok_def)

lemma pins_okD:
  assumes "pins_ok ps r" and "0 \<le> f" and "nat f < length ps"
  shows "0 \<le> pin_count (ps ! nat f)" and "0 < pin_count (ps ! nat f) \<Longrightarrow> \<not> is_evictable r f"
proof -
  from assms(1,3) have "0 \<le> pin_count (ps ! nat f) \<and>
      (0 < pin_count (ps ! nat f) \<longrightarrow> \<not> is_evictable r (int (nat f)))"
    unfolding pins_ok_def by blast
  with assms(2) show "0 \<le> pin_count (ps ! nat f)"
    and "0 < pin_count (ps ! nat f) \<Longrightarrow> \<not> is_evictable r f"
    by simp_all
qed

lemma NewPgImp_pins:
  assumes n: "NewPgImp h s = Some (res, s')" and inv: "pins_inv s"
  shows "pins_inv s'"
  using n
proof (cases rule: NewPgImp_SomeE)
  case none
  from GetVictimPage_pins [OF none(1) inv] show ?thesis
    by simp
next
  case (page f s1 reset s3 s4)
  from GetVictimPage_pins [OF page(1) inv] have "pins_inv s1"
    by simp
  then have "pins_inv (s1\<lparr>next_page_id := next_id (next_page_id s1)\<rparr>)"
    by (simp add: pins_inv_def)
  from ResetPage_pins [OF page(4) this] have i3: "pins_inv s3" .
  from page(3) have "frame_ok (s1\<lparr>next_page_id := next_id (next_page_id s1)\<rparr>) f"
    by (simp add: frame_ok_def)
  with ResetPage_frame_ok [OF page(4), of f] have f3: "frame_ok s3 f"
    by simp
  from page(6) have "UpdateFrameInfo (s4\<lparr>pages := (pages s4)[nat f := (pages s4 ! nat f)\<lparr>data := data (pages s4 ! nat f)\<rparr>]\<rparr>) f
      (pin_count ((pages s4)[nat f := (pages s4 ! nat f)\<lparr>data := data (pages s4 ! nat f)\<rparr>] ! nat f)) = Some s'"
    by simp
  from install_pins [OF page(5) f3 i3 this] show ?thesis .
qed

lemma FetchPgImp_pins:
  assumes n: "FetchPgImp h s p = Some (res, s')" and inv: "pins_inv s"
  shows "pins_inv s'"
  using n
proof (cases rule: FetchPgImp_SomeE)
  case (hit f)
  let ?pin = "pin_count (pages s ! nat f)"
  let ?pg = "(pages s ! nat f)\<lparr>pin_count := ?pin + 1\<rparr>"
  let ?s = "s\<lparr>pages := (pages s)[nat f := ?pg]\<rparr>"
  from hit(2) have r: "0 \<le> f" "nat f < length (pages s)"
    by (simp_all add: frame_ok_def)
  from inv have ok: "pins_ok (pages s) (replacer s)" and wf: "lruk_wf (replacer ?s)"
    by (simp_all add: pins_inv_def pins_ok_def)
  note pin = pins_okD [OF ok r]
  note u = UpdateFrameInfo_replacer [OF hit(4) wf]
  from ok u(1) have 1: "pins_ok (pages s) (replacer s')"
    by (rule pins_ok_replacer) (use u(2) in simp)
  have "\<not> is_evictable (replacer s') f"
  proof (cases "?pin = 0")
    case True
    with u(3) show ?thesis by simp
  next
    case False
    with pin have "\<not> is_evictable (replacer s) f" by simp
    with u(2) [of f] show ?thesis by auto
  qed
  with r have "\<not> is_evictable (replacer s') (int (nat f))"
    by simp
  with 1 pin(1) have "pins_ok ((pages s)[nat f := ?pg]) (replacer s')"
    by (intro pins_ok_pinned) simp_all
  moreover from hit(4) have "pages s' = pages ?s"
    by (rule UpdateFrameInfo_SomeE) simp
  ultimately show ?thesis
    by (simp add: pins_inv_def)
next
  case none
  from GetVictimPage_pins [OF none(2) inv] show ?thesis
    by simp
next
  case (miss f s1 reset s2 s3)
  from GetVictimPage_pins [OF miss(2) inv] have "pins_inv s1"
    by simp
  from ResetPage_pins [OF miss(5) this] have i2: "pins_inv s2" .
  from miss(4) ResetPage_frame_ok [OF miss(5)] have f2: "frame_ok s2 f"
    by simp
  from install_pins [OF miss(6) f2 i2 miss(7)] show ?thesis .
qed

lemma UnpinPgImp_pins:
  assumes n: "UnpinPgImp h s p dirty = Some (res, s')" and inv: "pins_inv s"
  shows "pins_inv s'"
  using n
proof (cases rule: UnpinPgImp_SomeE)
  case absent
  with inv show ?thesis by simp
next
  case (unpinned f)
  with inv show ?thesis by simp
next
  case (pinned f s1)
  let ?pin = "pin_count (pages s ! nat f)"
  let ?pg = "(pages s ! nat f)\<lparr>pin_count := ?pin - 1\<rparr>"
  from pinned(2) have r: "0 \<le> f" "nat f < length (pages s)"
    by (simp_all add: frame_ok_def)
  from inv have ok: "pins_ok (pages s) (replacer s)" and wf: "lruk_wf (replacer s)"
    by (simp_all add: pins_inv_def pins_ok_def)
  from pinned(5) obtain r' where pos: "0 < ?pin"
    and se: "if ?pin - 1 = 0 then SetEvictable (replacer s) f True = Some r' else r' = replacer s"
    and s1: "s1 = s\<lparr>pages := (pages s)[nat f := ?pg], replacer := r'\<rparr>"
    by (rule UnpinFrame_SomeE)
  have "pins_ok ((pages s)[nat f := ?pg]) r'"
  proof (cases "?pin - 1 = 0")
    case True
    with se have se': "SetEvictable (replacer s) f True = Some r'"
      by simp
    note w = SetEvictable_wf [OF wf se']
    from ok True have a: "pins_ok ((pages s)[nat f := ?pg]) (replacer s)"
      by (intro pins_ok_unpinned) simp_all
    have "0 \<le> pin_count ((pages s)[nat f := ?pg] ! j) \<and>
        (0 < pin_count ((pages s)[nat f := ?pg] ! j) \<longrightarrow> \<not> is_evictable r' (int j))"
      if j: "j < length ((pages s)[nat f := ?pg])" for j
    proof (cases "j = nat f")
      case True
      with j \<open>?pin - 1 = 0\<close> show ?thesis by simp
    next
      case False
      with r have "int j \<noteq> f" by auto
      from w(2) [OF this] a j show ?thesis
        by (simp add: pins_ok_def)
    qed
    with w(1) show ?thesis
      by (simp add: pins_ok_def)
  next
    case False
    with se have r': "r' = replacer s" by simp
    from pins_okD(2) [OF ok r pos] r have "\<not> is_evictable (replacer s) (int (nat f))"
      by simp
    with pos False ok show ?thesis
      unfolding r' by (intro pins_ok_pinned) simp_all
  qed
  then have "pins_inv s1"
    by (simp add: pins_inv_def s1)
  then show ?thesis
    unfolding pinned(7) pins_inv_def by (simp add: pins_ok_same_pin)
qed

lemma FlushPgImp_pins:
  assumes n: "FlushPgImp h s p = Some (res, s')" and inv: "pins_inv s"
  shows "pins_inv s'"
  using n
proof (cases rule: FlushPgImp_SomeE)
  case sentinel
  with inv show ?thesis by simp
next
  case absent
  with inv show ?thesis by simp
next
  case (flushed f)
  with inv show ?thesis
    by (simp add: pins_inv_def pins_ok_same_pin)
qed

lemma flush_frames_pins:
  "flush_frames s xs = Some s' \<Longrightarrow> pins_inv s \<Longrightarrow> pins_inv s'"
proof (induction s xs rule: flush_frames.induct)
  case (1 s)
  then show ?case by simp
next
  case (2 s i rest)
  show ?case
  proof (cases "page_id (pages s ! i) \<noteq> INVALID_PAGE_ID")
    case True
    let ?s = "s\<lparr>disk_pages := WritePage (disk_pages s) (page_id (pages s ! i)) (data (pages s ! i)),
             pages := (pages s)[i := (pages s ! i)\<lparr>is_dirty := False\<rparr>]\<rparr>"
    from "2.prems" True have i: "i < length (pages s)" and f: "flush_frames ?s rest = Some s'"
      by (simp_all split: if_splits)
    from "2.prems"(2) have "pins_inv ?s"
      by (simp add: pins_inv_def pins_ok_same_pin)
    from "2.IH"(1) [OF _ True f this] i show ?thesis
      by simp
  next
    case False
    from "2.prems" False have i: "i < length (pages s)" and f: "flush_frames s rest = Some s'"
      by (simp_all split: if_splits)
    from "2.IH"(2) [OF _ False f "2.prems"(2)] i show ?thesis
      by simp
  qed
qed

lemma DeletePgImp_pins:
  assumes n: "DeletePgImp h s p = Some (res, s')" and inv: "pins_inv s"
  shows "pins_inv s'"
  using n
proof (cases rule: DeletePgImp_SomeE)
  case absent
  with inv show ?thesis by simp
next
  case (pinned f)
  with inv show ?thesis by simp
next
  case (deleted f s1 r)
  from ResetPage_pins [OF deleted(4) inv] have i1: "pins_ok (pages s1) (replacer s1)"
    by (simp add: pins_inv_def)
  then have "lruk_wf (replacer s1)"
    by (simp add: pins_ok_def)
  note w = Remove_wf [OF this deleted(5)]
  from i1 w(1) have "pins_ok (pages s1) r"
    by (rule pins_ok_replacer) (use w(2) in simp)
  then show ?thesis
    by (simp add: deleted(7) DeallocatePage_def pins_inv_def)
next
  case (failed f)
  from ResetPage_pins [OF failed(4) inv] show ?thesis .
qed

lemma bpm_step_pins:
  assumes "bpm_step h s x = Some s'" and "pins_inv s"
  shows "pins_inv s'"
proof (cases x)
  case NewPage
  with assms show ?thesis
    by (auto dest: NewPgImp_pins)
next
  case (FetchPage p)
  with assms show ?thesis
    by (auto dest: FetchPgImp_pins)
next
  case (UnpinPage p d)
  with assms show ?thesis
    by (auto dest: UnpinPgImp_pins)
next
  case (FlushPage p)
  with assms show ?thesis
    by (auto dest: FlushPgImp_pins)
next
  case FlushAllPages
  with assms show ?thesis
    by (auto simp: FlushAllPgsImp_def dest: flush_frames_pins)
next
  case (DeletePage p)
  with assms show ?thesis
    by (auto dest: DeletePgImp_pins)
qed

lemma bpm_run_pins:
  "bpm_run h s xs = Some s' \<Longrightarrow> pins_inv s \<Longrightarrow> pins_inv s'"
proof (induction xs arbitrary: s)
  case Nil
  then show ?case by simp
next
  case (Cons x xs)
  from Cons.prems(1) obtain s1 where 1: "bpm_step h s x = Some s1" and 2: "bpm_run h s1 xs = Some s'"
    by (auto split: option.splits)
  from Cons.IH [OF 2 bpm_step_pins [OF 1 Cons.prems(2)]] show ?case .
qed

text \<open>
  C1. After every sequence of calls of \<open>NewPage\<close>, \<open>FetchPage\<close>, \<open>UnpinPage\<close>,
  \<open>FlushPage\<close>, \<open>FlushAllPages\<close> and \<open>DeletePage\<close> on a new pool, every frame has a pin
  count that is not negative, and a frame with a positive pin count has no evictable node
  in the replacer, so that \<open>Evict\<close> cannot return it.
\<close>

theorem pinned_frames_never_evictable:
  assumes "bpm_run h (BufferPoolManagerInstance_init n b k d) xs = Some s"
    and "i < length (pages s)"
  shows "0 \<le> pin_count (pages s ! i) \<and>
         (0 < pin_count (pages s ! i) \<longrightarrow>
            \<not> is_evictable (replacer s) (int i) \<and>
            (\<forall>out r'. Evict (replacer s) out \<noteq> Some (True, int i, r')))"
proof -
  from bpm_run_pins [OF assms(1) pins_inv_init] have ok: "pins_ok (pages s) (replacer s)"
    by (simp add: pins_inv_def)
  then have wf: "lruk_wf (replacer s)"
    by (simp add: pins_ok_def)
  from ok assms(2) have a: "0 \<le> pin_count (pages s ! i)"
    and b: "0 < pin_count (pages s ! i) \<longrightarrow> \<not> is_evictable (replacer s) (int i)"
    by (simp_all add: pins_ok_def)
  have "Evict (replacer s) out \<noteq> Some (True, int i, r')" if "\<not> is_evictable (replacer s) (int i)"
    for out r'
    using Evict_wf(3) [OF wf, of out True "int i" r'] that by auto
  with a b show ?thesis
    by blast
qed

lemmas ht_eval = HT_Insert.simps HT_Find_def HT_Remove_def bucket_at_def IndexOf_def
  Bucket_Insert_def Bucket_Find_def Bucket_Remove_def IsOverflow_def IsFull_def
  ExtendibleHashTable_init_def Bucket_init_def

lemmas bpm_eval = NewPgImp_def FetchPgImp_def UnpinPgImp_def FlushPgImp_def DeletePgImp_def
  GetVictimPage_def ResetPage_def InitPage_def UpdateFrameInfo_def UnpinFrame_def
  AllocatePage_def next_id_def DeallocatePage_def frame_ok_def
  BufferPoolManagerInstance_init_def
  Page_init_def INVALID_PAGE_ID_def INVALID_FRAME_ID_def WritePage_def ReadPage_def
  ResetMemory_def

theorem pinned_frames_never_evictable_witness:
  "bpm_run (\<lambda>p. nat p) (BufferPoolManagerInstance_init 1 4 2 (\<lambda>p. []))
     [NewPage, UnpinPage 0 True, FetchPage 0] =
     Some
       \<lparr>pool_size = 1,
         pages = [\<lparr>page_id = 0, pin_count = 1, is_dirty = True, data = zero_page\<rparr>],
         page_table =
           \<lparr>global_depth = 0, bucket_size = 4, num_buckets = 1, dir = [0],
             buckets = [\<lparr>b_size = 4, b_depth = 0, b_list = [(0, 0)]\<rparr>]\<rparr>,
         replacer =
           \<lparr>curr_size = 0, replacer_size = 1, lru_k = 2,
             history_list = [], history_frames = {}, history_frame_size = 0,
             buffer_list = [\<lparr>frame_id = 0, access_times = 2, evictable = False\<rparr>],
             buffer_frames = {0}, buffer_frame_size = 1\<rparr>,
         free_list = [], next_page_id = 1, disk_pages = (\<lambda>p. []), deallocated = []\<rparr> \<and>
   \<not> is_evictable
       \<lparr>curr_size = 0, replacer_size = 1, lru_k = 2,
         history_list = [], history_frames = {}, history_frame_size = 0,
         buffer_list = [\<lparr>frame_id = 0, access_times = 2, evictable = False\<rparr>],
         buffer_frames = {0}, buffer_frame_size = 1\<rparr> 0"
proof -
  let ?s = "\<lparr>pool_size = 1,
         pages = [\<lparr>page_id = 0, pin_count = 1, is_dirty = True, data = zero_page\<rparr>],
         page_table =
           \<lparr>global_depth = 0, bucket_size = 4, num_buckets = 1, dir = [0],
             buckets = [\<lparr>b_size = 4, b_depth = 0, b_list = [(0, 0)]\<rparr>]\<rparr>,
         replacer =
           \<lparr>curr_size = 0, replacer_size = 1, lru_k = 2,
             history_list = [], history_frames = {}, history_frame_size = 0,
             buffer_list = [\<lparr>frame_id = 0, access_times = 2, evictable = False\<rparr>],
             buffer_frames = {0}, buffer_frame_size = 1\<rparr>,
         free_list = [], next_page_id = 1, disk_pages = (\<lambda>p. []), deallocated = []\<rparr>"
  have run: "bpm_run (\<lambda>p. nat p) (BufferPoolManagerInstance_init 1 4 2 (\<lambda>p. []))
     [NewPage, UnpinPage 0 True, FetchPage 0] = Some ?s"
    by (simp add: bpm_eval ht_eval lruk_eval)
  have "0 < length (pages ?s)"
    by simp
  from pinned_frames_never_evictable [OF run this] have "\<not> is_evictable (replacer ?s) 0"
    by simp
  with run show ?thesis
    by simp
qed

section \<open>The extendible hash table: the bucket counter\<close>

lemma HT_Insert_rule:
  assumes ins: "HT_Insert h t k v = Some t'"
    and init: "I t"
    and split: "\<And>t t1 b. I t \<Longrightarrow> bucket_at t (IndexOf h t k) = Some b \<Longrightarrow>
        \<not> fst (Bucket_Insert b k v) \<Longrightarrow> split_bucket h t (IndexOf h t k) = Some t1 \<Longrightarrow> I t1"
    and final: "\<And>t b. I t \<Longrightarrow> bucket_at t (IndexOf h t k) = Some b \<Longrightarrow>
        fst (Bucket_Insert b k v) \<Longrightarrow>
        Q (t\<lparr>buckets := (buckets t)[dir t ! IndexOf h t k := snd (Bucket_Insert b k v)]\<rparr>)"
  shows "Q t'"
proof -
  have "h' = h \<and> k' = k \<and> v' = v \<longrightarrow> I t \<longrightarrow> Q t'" if "HT_Insert h' t k' v' = Some t'" for h' k' v'
  proof (rule HT_Insert.raw_induct [rotated 1, OF that])
    fix f h'' t k'' v'' y
    assume ih: "\<And>a t b c y. f a t b c = Some y \<Longrightarrow> a = h \<and> b = k \<and> c = v \<longrightarrow> I t \<longrightarrow> Q y"
      and body: "(case bucket_at t (IndexOf h'' t k'') of None \<Rightarrow> None
      | Some bucket \<Rightarrow>
          if fst (Bucket_Insert bucket k'' v'')
          then Some (t\<lparr>buckets := (buckets t) [dir t ! IndexOf h'' t k'' := snd (Bucket_Insert bucket k'' v'')]\<rparr>)
          else case split_bucket h'' t (IndexOf h'' t k'') of None \<Rightarrow> None
               | Some t1 \<Rightarrow> f h'' t1 k'' v'') = Some y"
    show "h'' = h \<and> k'' = k \<and> v'' = v \<longrightarrow> I t \<longrightarrow> Q y"
    proof (intro impI; elim conjE)
      assume e: "h'' = h" "k'' = k" "v'' = v" and i: "I t"
      from body obtain b where b: "bucket_at t (IndexOf h t k) = Some b"
        unfolding e by (auto split: option.splits)
      show "Q y"
      proof (cases "fst (Bucket_Insert b k v)")
        case True
        with body b final [OF i b True] show ?thesis
          unfolding e by simp
      next
        case False
        with body b obtain t1 where t1: "split_bucket h t (IndexOf h t k) = Some t1"
          and r: "f h t1 k v = Some y"
          unfolding e by (auto split: option.splits)
        from split [OF i b False t1] ih [OF r] show ?thesis
          by simp
      qed
    qed
  qed
  with ins init show ?thesis by blast
qed

lemma reinsert_frame:
  assumes "reinsert h t xs = Some t'"
  shows "global_depth t' = global_depth t \<and> dir t' = dir t \<and> bucket_size t' = bucket_size t \<and>
    num_buckets t' = num_buckets t \<and> length (buckets t') = length (buckets t)"
  using assms
proof (induction xs arbitrary: t)
  case Nil
  then show ?case by simp
next
  case (Cons x xs)
  from Cons.prems obtain b where
    r: "reinsert h (t\<lparr>buckets := (buckets t)[dir t ! IndexOf h t (fst x) :=
          snd (Bucket_Insert b (fst x) (snd x))]\<rparr>) xs = Some t'"
    by (auto split: option.splits)
  from Cons.IH [OF r] show ?case by simp
qed

lemma grow_dir_SomeE:
  assumes "grow_dir t ld = Some t2"
  obtains (same) "ld \<le> global_depth t" "t2 = t"
  | (doubled) d where "global_depth t < ld" "global_depth t < 30"
      "double_dir (dir t) 0 (2 ^ global_depth t) = Some d"
      "t2 = t\<lparr>global_depth := global_depth t + 1, dir := d\<rparr>"
  using assms unfolding grow_dir_def by (auto split: if_splits)

lemma install_pair_SomeE:
  assumes "install_pair h t a bn ld = Some t'"
  obtains d2 d3 where "PairIndex bn ld < length (dir t)"
    "rewire_down ((dir t)[PairIndex bn ld := length (buckets t)]) (length (buckets t)) ld
       (int (PairIndex bn ld) - 2 ^ ld) = Some d2"
    "rewire_up d2 (length (buckets t)) ld (2 ^ global_depth t) (PairIndex bn ld + 2 ^ ld) = Some d3"
    "reinsert h (t\<lparr>dir := d3, buckets := (buckets t)[a := ClearItems (buckets t ! a)] @
        [Bucket_init (bucket_size t) ld]\<rparr>) (GetCopiedItems (buckets t ! a)) = Some t'"
  using assms unfolding install_pair_def Let_def by (auto split: if_splits option.splits)

lemma split_bucket_SomeE:
  assumes "split_bucket h t bn = Some t'"
  obtains b0 t2 where "bucket_at t bn = Some b0"
    "grow_dir (t\<lparr>buckets := (buckets t)[dir t ! bn := IncrementDepth b0]\<rparr>) (Suc (b_depth b0)) = Some t2"
    "install_pair h t2 (dir t ! bn) bn (Suc (b_depth b0)) = Some t'"
  using assms unfolding split_bucket_def Let_def GetDepth_def IncrementDepth_def
  by (auto split: option.splits)

lemma split_bucket_num_buckets:
  assumes "split_bucket h t bn = Some t'"
  shows "num_buckets t' = num_buckets t \<and> bucket_size t' = bucket_size t"
  using assms
proof (cases rule: split_bucket_SomeE)
  case (1 b0 t2)
  from 1(2) have a: "num_buckets t2 = num_buckets t \<and> bucket_size t2 = bucket_size t"
    by (cases rule: grow_dir_SomeE) simp_all
  from 1(3) obtain t3 xs where r: "reinsert h t3 xs = Some t'"
    and b: "num_buckets t3 = num_buckets t2" "bucket_size t3 = bucket_size t2"
    by (cases rule: install_pair_SomeE) simp
  from reinsert_frame [OF r] a b show ?thesis by simp
qed

lemma HT_Insert_num_buckets:
  assumes "HT_Insert h t k v = Some t'"
  shows "num_buckets t' = num_buckets t"
proof (rule HT_Insert_rule [OF assms, where I = "\<lambda>s. num_buckets s = num_buckets t"])
  show "num_buckets t = num_buckets t" ..
next
  fix s s1 b
  assume "num_buckets s = num_buckets t" and "split_bucket h s (IndexOf h s k) = Some s1"
  with split_bucket_num_buckets [of h s "IndexOf h s k" s1] show "num_buckets s1 = num_buckets t"
    by simp
next
  fix s :: "('a, 'b) ExtendibleHashTable" and b
  assume "num_buckets s = num_buckets t"
  then show "num_buckets (s\<lparr>buckets := (buckets s)[dir s ! IndexOf h s k := snd (Bucket_Insert b k v)]\<rparr>)
      = num_buckets t"
    by simp
qed

lemma HT_Remove_SomeE:
  assumes "HT_Remove h t k = Some (found, t')"
  obtains b b1 where "bucket_at t (IndexOf h t k) = Some b" "Bucket_Remove b k = Some (found, b1)"
    "t' = t\<lparr>buckets := (buckets t)[dir t ! IndexOf h t k := b1]\<rparr>"
  using assms unfolding HT_Remove_def by (auto split: option.splits)

lemma ht_step_num_buckets:
  assumes "ht_step h t x = Some t'"
  shows "num_buckets t' = num_buckets t"
proof (cases x)
  case (Op_Insert k v)
  with assms show ?thesis
    by (simp add: HT_Insert_num_buckets)
next
  case (Op_Remove k)
  with assms obtain found where "HT_Remove h t k = Some (found, t')"
    by auto
  then show ?thesis
    by (cases rule: HT_Remove_SomeE) simp
next
  case (Op_Find k)
  with assms show ?thesis
    by auto
qed

lemma ht_run_num_buckets:
  assumes "ht_run h t xs = Some t'"
  shows "num_buckets t' = num_buckets t"
  using assms
proof (induction xs arbitrary: t)
  case Nil
  then show ?case by simp
next
  case (Cons x xs)
  from Cons.prems obtain t1 where s: "ht_step h t x = Some t1" and r: "ht_run h t1 xs = Some t'"
    by (auto split: option.splits)
  from Cons.IH [OF r] ht_step_num_buckets [OF s] show ?case
    by simp
qed

text \<open>
  Claim C9. After every sequence of Insert, Remove and Find on a new table,
  \<open>GetNumBuckets\<close> returns 1, whatever the hash function and the bucket size, and however
  many buckets the splits have made.
\<close>

theorem GetNumBuckets_always_one:
  assumes "ht_run h (ExtendibleHashTable_init sz) xs = Some t"
  shows "GetNumBuckets t = 1"
proof -
  from ht_run_num_buckets [OF assms] show ?thesis
    by (simp add: GetNumBuckets_def ExtendibleHashTable_init_def)
qed

theorem GetNumBuckets_always_one_witness:
  "ht_run (\<lambda>k. nat k) (ExtendibleHashTable_init 2)
     [Op_Insert 0 10, Op_Insert 1 11, Op_Insert 2 12, Op_Insert 3 13, Op_Insert 4 14,
      Op_Remove 1, Op_Find 3] =
     Some
       \<lparr>global_depth = 2, bucket_size = 2, num_buckets = 1, dir = [0, 1, 2, 1],
         buckets =
           [\<lparr>b_size = 2, b_depth = 2, b_list = [(0, 10), (4, 14)]\<rparr>,
            \<lparr>b_size = 2, b_depth = 1, b_list = [(3, 13)]\<rparr>,
            \<lparr>b_size = 2, b_depth = 2, b_list = [(2::int, 12::int)]\<rparr>]\<rparr> \<and>
   GetNumBuckets
       \<lparr>global_depth = 2, bucket_size = 2, num_buckets = 1, dir = [0, 1, 2, 1],
         buckets =
           [\<lparr>b_size = 2, b_depth = 2, b_list = [(0, 10), (4, 14)]\<rparr>,
            \<lparr>b_size = 2, b_depth = 1, b_list = [(3, 13)]\<rparr>,
            \<lparr>b_size = 2, b_depth = 2, b_list = [(2::int, 12::int)]\<rparr>]\<rparr> = 1"
proof -
  have run: "ht_run (\<lambda>k. nat k) (ExtendibleHashTable_init 2)
     [Op_Insert 0 10, Op_Insert 1 11, Op_Insert 2 12, Op_Insert 3 13, Op_Insert 4 14,
      Op_Remove 1, Op_Find 3] =
     Some
       \<lparr>global_depth = 2, bucket_size = 2, num_buckets = 1, dir = [0, 1, 2, 1],
         buckets =
           [\<lparr>b_size = 2, b_depth = 2, b_list = [(0, 10), (4, 14)]\<rparr>,
            \<lparr>b_size = 2, b_depth = 1, b_list = [(3, 13)]\<rparr>,
            \<lparr>b_size = 2, b_depth = 2, b_list = [(2::int, 12::int)]\<rparr>]\<rparr>"
    by code_simp
  from GetNumBuckets_always_one [OF run] run show ?thesis
    by (simp only: simp_thms)
qed

section \<open>The extendible hash table: the directory\<close>

lemma and_mask_mod: "(x::nat) AND (push_bit g 1 - 1) = x mod 2 ^ g"
proof -
  have "(x::nat) AND mask g = take_bit g x"
    by (simp add: take_bit_eq_mask)
  then show ?thesis
    by (simp add: mask_eq_exp_minus_1 take_bit_eq_mod)
qed

lemma pair_low: "(bn XOR push_bit dl 1) mod 2 ^ dl = (bn::nat) mod 2 ^ dl"
  by (simp flip: take_bit_eq_mod add: take_bit_xor)

lemma pair_bit: "bit ((bn::nat) XOR push_bit dl 1) dl \<noteq> bit bn dl"
  by (simp add: bit_xor_iff bit_push_bit_iff bit_exp_iff)

lemma pair_high: "(bn XOR push_bit dl 1) mod 2 ^ Suc dl \<noteq> (bn::nat) mod 2 ^ Suc dl"
proof
  assume "(bn XOR push_bit dl 1) mod 2 ^ Suc dl = bn mod 2 ^ Suc dl"
  then have "take_bit (Suc dl) (bn XOR push_bit dl 1) = take_bit (Suc dl) bn"
    by (simp only: take_bit_eq_mod)
  then have "bit (take_bit (Suc dl) (bn XOR push_bit dl 1)) dl = bit (take_bit (Suc dl) bn) dl"
    by simp
  then have "bit (bn XOR push_bit dl 1) dl = bit bn dl"
    by (simp only: bit_take_bit_iff) simp
  with pair_bit [of bn dl] show False
    by simp
qed

lemma take_bit_Suc_eq:
  assumes "take_bit dl (j::nat) = take_bit dl i" and "bit j dl = bit i dl"
  shows "take_bit (Suc dl) j = take_bit (Suc dl) i"
  using assms by (simp only: take_bit_Suc_from_most)

lemma pair_cases:
  assumes "(j::nat) mod 2 ^ dl = bn mod 2 ^ dl"
  shows "j mod 2 ^ Suc dl = bn mod 2 ^ Suc dl \<or> j mod 2 ^ Suc dl = (bn XOR push_bit dl 1) mod 2 ^ Suc dl"
proof -
  from assms have t: "take_bit dl j = take_bit dl bn"
    by (simp only: take_bit_eq_mod)
  have "take_bit (Suc dl) j = take_bit (Suc dl) bn \<or> take_bit (Suc dl) j = take_bit (Suc dl) (bn XOR push_bit dl 1)"
  proof (cases "bit j dl = bit bn dl")
    case True
    with t have "take_bit (Suc dl) j = take_bit (Suc dl) bn"
      by (rule take_bit_Suc_eq)
    then show ?thesis ..
  next
    case False
    from pair_low [of bn dl] have "take_bit dl (bn XOR push_bit dl 1) = take_bit dl bn"
      by (simp only: take_bit_eq_mod)
    with t have "take_bit dl j = take_bit dl (bn XOR push_bit dl 1)"
      by simp
    moreover from False pair_bit [of bn dl] have "bit j dl = bit (bn XOR push_bit dl 1) dl"
      by blast
    ultimately have "take_bit (Suc dl) j = take_bit (Suc dl) (bn XOR push_bit dl 1)"
      by (rule take_bit_Suc_eq)
    then show ?thesis ..
  qed
  then show ?thesis
    by (simp only: take_bit_eq_mod)
qed

lemma pair_bound:
  assumes "(bn::nat) < 2 ^ g" and "dl < g"
  shows "bn XOR push_bit dl 1 < 2 ^ g"
proof -
  from assms(1) have "take_bit g bn = bn"
    by (simp add: take_bit_nat_eq_self_iff)
  moreover from assms(2) have "take_bit g (push_bit dl (1::nat)) = push_bit dl 1"
    by (simp add: take_bit_nat_eq_self_iff push_bit_eq_mult)
  ultimately have "take_bit g (bn XOR push_bit dl 1) = bn XOR push_bit dl 1"
    by (simp only: take_bit_xor)
  then show ?thesis
    by (simp only: take_bit_nat_eq_self_iff)
qed

lemma mod_pow_down:
  assumes "(j::nat) mod 2 ^ n = i mod 2 ^ n" and "m \<le> n"
  shows "j mod 2 ^ m = i mod 2 ^ m"
proof -
  from assms(2) have "(2::nat) ^ m dvd 2 ^ n"
    by (simp add: le_imp_power_dvd)
  then have "j mod 2 ^ n mod 2 ^ m = j mod 2 ^ m" "i mod 2 ^ n mod 2 ^ m = i mod 2 ^ m"
    by (simp_all add: mod_mod_cancel)
  with assms(1) show ?thesis
    by metis
qed

lemma dir_okI:
  assumes "length d = 2 ^ g"
    and "\<And>i. i < 2 ^ g \<Longrightarrow> dep (d ! i) \<le> g"
    and "\<And>i j. i < 2 ^ g \<Longrightarrow> j < 2 ^ g \<Longrightarrow>
        (d ! j = d ! i) = (j mod 2 ^ dep (d ! i) = i mod 2 ^ dep (d ! i))"
  shows "dir_ok g d dep"
  using assms unfolding dir_ok_def by simp

lemma dir_ok_length: "dir_ok g d dep \<Longrightarrow> length d = 2 ^ g"
  unfolding dir_ok_def by simp

lemma dir_ok_depth: "dir_ok g d dep \<Longrightarrow> i < 2 ^ g \<Longrightarrow> dep (d ! i) \<le> g"
  unfolding dir_ok_def by simp

lemma dir_ok_share:
  "dir_ok g d dep \<Longrightarrow> i < 2 ^ g \<Longrightarrow> j < 2 ^ g \<Longrightarrow>
    (d ! j = d ! i) = (j mod 2 ^ dep (d ! i) = i mod 2 ^ dep (d ! i))"
  unfolding dir_ok_def by simp

lemma mod_mod_pow: "e \<le> g \<Longrightarrow> (j::nat) mod 2 ^ g mod 2 ^ e = j mod 2 ^ e"
  by (simp add: le_imp_power_dvd mod_mod_cancel)

lemma nth_append_self:
  assumes "length d = n" and "j < 2 * n"
  shows "(d @ d) ! j = d ! (j mod n)"
proof (cases "j < n")
  case True
  with assms show ?thesis by (simp add: nth_append)
next
  case False
  with assms have "j mod n = j - n"
    by (metis le_mod_geq mod_less not_less less_diff_conv2 mult_2)
  with False assms show ?thesis by (simp add: nth_append)
qed

lemma dir_ok_double:
  assumes ok: "dir_ok g d dep"
  shows "dir_ok (Suc g) (d @ d) dep"
proof (rule dir_okI)
  note len = dir_ok_length [OF ok]
  from len show "length (d @ d) = 2 ^ Suc g"
    by simp
  have nth: "(d @ d) ! j = d ! (j mod 2 ^ g)" if "j < 2 ^ Suc g" for j
    using nth_append_self [OF len, of j] that by simp
  {
    fix i :: nat
    assume i: "i < 2 ^ Suc g"
    have "dep (d ! (i mod 2 ^ g)) \<le> g"
      by (rule dir_ok_depth [OF ok]) simp
    with nth [OF i] show "dep ((d @ d) ! i) \<le> Suc g"
      by simp
  }
  {
    fix i j :: nat
    assume i: "i < 2 ^ Suc g" and j: "j < 2 ^ Suc g"
    let ?e = "dep (d ! (i mod 2 ^ g))"
    have e: "?e \<le> g"
      by (rule dir_ok_depth [OF ok]) simp
    have "(d ! (j mod 2 ^ g) = d ! (i mod 2 ^ g)) = (j mod 2 ^ g mod 2 ^ ?e = i mod 2 ^ g mod 2 ^ ?e)"
      by (rule dir_ok_share [OF ok]) simp_all
    then show "((d @ d) ! j = (d @ d) ! i) =
        (j mod 2 ^ dep ((d @ d) ! i) = i mod 2 ^ dep ((d @ d) ! i))"
      by (simp only: nth [OF i] nth [OF j] mod_mod_pow [OF e])
  }
qed

lemma dir_ok_cong:
  assumes "dir_ok g d dep" and "\<And>i. i < 2 ^ g \<Longrightarrow> dep' (d ! i) = dep (d ! i)"
  shows "dir_ok g d dep'"
  using assms unfolding dir_ok_def by simp

lemma dir_ok_split:
  fixes d d' :: "nat list" and bn l g new :: nat
  defines "pi \<equiv> bn XOR push_bit l 1"
  assumes ok: "dir_ok g d dep" and bn: "bn < 2 ^ g" and l: "dep (d ! bn) = l" and lg: "l < g"
    and new: "new \<notin> set d"
    and len: "length d' = 2 ^ g"
    and nth: "\<And>j. j < 2 ^ g \<Longrightarrow>
        d' ! j = (if j mod 2 ^ Suc l = pi mod 2 ^ Suc l then new else d ! j)"
    and da: "dep' (d ! bn) = Suc l" and dn: "dep' new = Suc l"
    and other: "\<And>x. x \<in> set d \<Longrightarrow> x \<noteq> d ! bn \<Longrightarrow> dep' x = dep x"
  shows "dir_ok g d' dep' \<and> set d' = insert new (set d)"
proof -
  note dlen = dir_ok_length [OF ok]
  have pi: "pi < 2 ^ g"
    unfolding pi_def using bn lg by (rule pair_bound)
  have low: "pi mod 2 ^ l = bn mod 2 ^ l"
    unfolding pi_def by (rule pair_low)
  have high: "pi mod 2 ^ Suc l \<noteq> bn mod 2 ^ Suc l"
    unfolding pi_def by (rule pair_high)
  have in_d: "d ! j \<noteq> new" if "j < 2 ^ g" for j
    using new that dlen by (metis nth_mem)
  have a_iff: "(d ! j = d ! bn) = (j mod 2 ^ l = bn mod 2 ^ l)" if "j < 2 ^ g" for j
    using dir_ok_share [OF ok bn that] l by simp
  have at_pi: "d ! j = d ! bn" if "j < 2 ^ g" "j mod 2 ^ Suc l = pi mod 2 ^ Suc l" for j
  proof -
    from that(2) have "j mod 2 ^ l = pi mod 2 ^ l"
      by (rule mod_pow_down) simp
    with low a_iff [OF that(1)] show ?thesis
      by simp
  qed
  have new_iff: "(d' ! j = new) = (j mod 2 ^ Suc l = pi mod 2 ^ Suc l)" if "j < 2 ^ g" for j
    using nth [OF that] in_d [OF that] by simp
  have old_iff: "(d' ! j = d ! bn) = (j mod 2 ^ Suc l = bn mod 2 ^ Suc l)" if j: "j < 2 ^ g" for j
  proof
    assume e: "d' ! j = d ! bn"
    with in_d [OF bn] new_iff [OF j] have np: "j mod 2 ^ Suc l \<noteq> pi mod 2 ^ Suc l"
      by auto
    with nth [OF j] e have "d ! j = d ! bn"
      by simp
    with a_iff [OF j] have "j mod 2 ^ l = bn mod 2 ^ l"
      by simp
    from pair_cases [OF this] np show "j mod 2 ^ Suc l = bn mod 2 ^ Suc l"
      unfolding pi_def by blast
  next
    assume e: "j mod 2 ^ Suc l = bn mod 2 ^ Suc l"
    with high have np: "j mod 2 ^ Suc l \<noteq> pi mod 2 ^ Suc l"
      by simp
    from e have "j mod 2 ^ l = bn mod 2 ^ l"
      by (rule mod_pow_down) simp
    with a_iff [OF j] nth [OF j] np show "d' ! j = d ! bn"
      by simp
  qed
  have keep: "d' ! j = d ! j" if "j < 2 ^ g" "d ! j \<noteq> d ! bn" for j
    using nth [OF that(1)] at_pi [OF that(1)] that(2) by auto
  have ok': "dir_ok g d' dep'"
  proof (rule dir_okI)
    show "length d' = 2 ^ g" by (rule len)
  next
    fix i :: nat
    assume i: "i < 2 ^ g"
    consider (n) "d' ! i = new" | (a) "d' ! i = d ! bn" | (x) "d' ! i \<noteq> new" "d' ! i \<noteq> d ! bn"
      by blast
    then show "dep' (d' ! i) \<le> g"
    proof cases
      case n
      with dn lg show ?thesis by simp
    next
      case a
      with da lg show ?thesis by simp
    next
      case x
      with nth [OF i] have ii: "d' ! i = d ! i"
        by (simp split: if_splits)
      from i dlen have "d ! i \<in> set d"
        by simp
      from other [OF this] x(2) ii have "dep' (d ! i) = dep (d ! i)"
        by simp
      with ii dir_ok_depth [OF ok i] show ?thesis
        by simp
    qed
  next
    fix i j :: nat
    assume i: "i < 2 ^ g" and j: "j < 2 ^ g"
    consider (n) "d' ! i = new" | (a) "d' ! i = d ! bn" | (x) "d' ! i \<noteq> new" "d' ! i \<noteq> d ! bn"
      by blast
    then show "(d' ! j = d' ! i) = (j mod 2 ^ dep' (d' ! i) = i mod 2 ^ dep' (d' ! i))"
    proof cases
      case n
      with new_iff [OF i] new_iff [OF j] dn show ?thesis
        by simp
    next
      case a
      with old_iff [OF i] old_iff [OF j] da show ?thesis
        by simp
    next
      case x
      with nth [OF i] have ii: "d' ! i = d ! i"
        by (simp split: if_splits)
      with x(2) have nb: "d ! i \<noteq> d ! bn"
        by simp
      have "(d' ! j = d ! i) = (d ! j = d ! i)"
      proof
        assume e: "d' ! j = d ! i"
        with ii x(1) new_iff [OF j] nth [OF j] show "d ! j = d ! i"
          by (simp split: if_splits)
      next
        assume e: "d ! j = d ! i"
        with nb keep [OF j] show "d' ! j = d ! i"
          by simp
      qed
      moreover from i dlen have "d ! i \<in> set d"
        by simp
      from other [OF this] nb have "dep' (d ! i) = dep (d ! i)"
        by simp
      ultimately show ?thesis
        using dir_ok_share [OF ok i j] ii by simp
    qed
  qed
  have "set d' = insert new (set d)"
  proof (intro equalityI subsetI)
    fix x
    assume "x \<in> set d'"
    then obtain j where j: "j < 2 ^ g" "d' ! j = x"
      using len by (metis in_set_conv_nth)
    with nth [OF j(1)] dlen show "x \<in> insert new (set d)"
      by (auto split: if_splits)
  next
    fix x
    assume x: "x \<in> insert new (set d)"
    show "x \<in> set d'"
    proof (cases "x = new")
      case True
      with new_iff [OF pi] pi len show ?thesis
        by (metis nth_mem)
    next
      case False
      with x obtain j where j: "j < 2 ^ g" "d ! j = x"
        using dlen by (metis in_set_conv_nth insertE)
      show ?thesis
      proof (cases "x = d ! bn")
        case True
        from old_iff [OF bn] have "d' ! bn = d ! bn"
          by simp
        with True bn len show ?thesis
          by (metis nth_mem)
      next
        case False
        with j keep [OF j(1)] have "d' ! j = x"
          by simp
        with j(1) len show ?thesis
          by (metis nth_mem)
      qed
    qed
  qed
  with ok' show ?thesis ..
qed

lemma double_dir_take:
  assumes "length d0 = n" and "i \<le> n"
  shows "double_dir (d0 @ take i d0) i n = Some (d0 @ d0)"
  using assms
proof (induction "n - i" arbitrary: i)
  case 0
  then show ?case
    by (simp add: double_dir.simps [of _ i])
next
  case (Suc m)
  then have i: "i < n" and m: "m = n - Suc i" and le: "Suc i \<le> n"
    by simp_all
  from i Suc.prems(1) have e: "(d0 @ take i d0) @ [(d0 @ take i d0) ! i] = d0 @ take (Suc i) d0"
    by (simp add: nth_append take_Suc_conv_app_nth)
  from Suc.hyps(1) [OF m Suc.prems(1) le] e i Suc.prems(1) show ?case
    by (simp add: double_dir.simps [of _ i])
qed

lemma double_dir_eq: "length d = n \<Longrightarrow> double_dir d 0 n = Some (d @ d)"
  using double_dir_take [of d n 0] by simp

lemma rewire_down_nth:
  assumes "i < int (length d)"
  shows "\<exists>d'. rewire_down d new l i = Some d' \<and> length d' = length d \<and>
    (\<forall>j < length d. d' ! j = (if int j \<le> i \<and> (i - int j) mod 2 ^ l = 0 then new else d ! j))"
  using assms
proof (induction d new l i rule: rewire_down.induct)
  case (1 d new l i)
  show ?case
  proof (cases "0 \<le> i")
    case False
    then show ?thesis
      by (simp add: rewire_down.simps [of d])
  next
    case True
    with "1.prems" have lt: "nat i < length d"
      by simp
    have "i - 2 ^ l < int (length (d[nat i := new]))"
      using "1.prems" by (simp add: less_le_trans [of _ i] )
    from "1.IH" [OF True lt this] obtain d' where
      r: "rewire_down (d[nat i := new]) new l (i - 2 ^ l) = Some d'"
      and len: "length d' = length d"
      and nth: "\<And>j. j < length d \<Longrightarrow> d' ! j =
        (if int j \<le> i - 2 ^ l \<and> (i - 2 ^ l - int j) mod 2 ^ l = 0 then new else d[nat i := new] ! j)"
      by auto
    have "d' ! j = (if int j \<le> i \<and> (i - int j) mod 2 ^ l = 0 then new else d ! j)"
      if j: "j < length d" for j
    proof (cases "int j = i")
      case True
      then have "nat i = j"
        by auto
      with True nth [OF j] j show ?thesis
        by auto
    next
      case False
      then have ne: "j \<noteq> nat i"
        using \<open>0 \<le> i\<close> by auto
      have m: "(i - 2 ^ l - int j) mod 2 ^ l = (i - int j) mod 2 ^ l"
        by (metis diff_right_commute minus_mod_self2)
      have "int j \<le> i - 2 ^ l" if "int j \<le> i" "(i - int j) mod 2 ^ l = 0"
      proof -
        from that(2) have "(2::int) ^ l dvd i - int j"
          by auto
        moreover from that(1) False have "0 < i - int j"
          by simp
        ultimately have "2 ^ l \<le> i - int j"
          by (rule zdvd_imp_le)
        then show ?thesis by simp
      qed
      moreover have "int j \<le> i" if "int j \<le> i - 2 ^ l"
        using that by (smt (verit) zero_less_power)
      ultimately show ?thesis
        using nth [OF j] ne m by auto
    qed
    with r len True lt show ?thesis
      by (simp add: rewire_down.simps [of d])
  qed
qed

lemma rewire_up_nth:
  assumes "n \<le> length d"
  shows "\<exists>d'. rewire_up d new l n i = Some d' \<and> length d' = length d \<and>
    (\<forall>j < length d. d' ! j = (if i \<le> j \<and> j < n \<and> (j - i) mod 2 ^ l = 0 then new else d ! j))"
  using assms
proof (induction d new l n i rule: rewire_up.induct)
  case (1 d new l n i)
  show ?case
  proof (cases "i < n")
    case False
    then show ?thesis
      by (simp add: rewire_up.simps [of d])
  next
    case True
    with "1.prems" have lt: "i < length d"
      by simp
    from "1.prems" have "n \<le> length (d[i := new])"
      by simp
    from "1.IH" [OF True lt this] obtain d' where
      r: "rewire_up (d[i := new]) new l n (i + 2 ^ l) = Some d'"
      and len: "length d' = length d"
      and nth: "\<And>j. j < length d \<Longrightarrow> d' ! j =
        (if i + 2 ^ l \<le> j \<and> j < n \<and> (j - (i + 2 ^ l)) mod 2 ^ l = 0 then new else d[i := new] ! j)"
      by auto
    have "d' ! j = (if i \<le> j \<and> j < n \<and> (j - i) mod 2 ^ l = 0 then new else d ! j)"
      if j: "j < length d" for j
    proof (cases "j = i")
      case True
      with nth [OF j] j \<open>i < n\<close> show ?thesis
        by simp
    next
      case False
      have m: "(j - (i + 2 ^ l)) mod 2 ^ l = (j - i) mod 2 ^ l" if "i + 2 ^ l \<le> j"
        using that by (metis add.commute diff_diff_left le_mod_geq add_leD2 le_diff_conv2 add_leD1)
      have "i + 2 ^ l \<le> j" if "i \<le> j" "(j - i) mod 2 ^ l = 0"
      proof -
        from that(2) have "(2::nat) ^ l dvd j - i"
          by auto
        moreover from that(1) False have "0 < j - i"
          by simp
        ultimately have "2 ^ l \<le> j - i"
          by (rule dvd_imp_le)
        with that(1) show ?thesis by simp
      qed
      then show ?thesis
        using nth [OF j] False m by auto
    qed
    with r len True lt show ?thesis
      by (simp add: rewire_up.simps [of d])
  qed
qed

lemma residue_below:
  fixes j p m :: nat
  assumes "0 < m" and "j < p"
  shows "(j mod m = p mod m) = (int j \<le> int p - int m \<and> (int p - int m - int j) mod int m = 0)"
proof -
  from assms(2) have iff: "(j mod m = p mod m) = (m dvd p - j)"
    using mod_eq_dvd_iff_nat [of j p m] by auto
  show ?thesis
  proof
    assume "j mod m = p mod m"
    with iff have d: "m dvd p - j"
      by simp
    with assms(2) have le: "m \<le> p - j"
      by (simp add: dvd_imp_le)
    from d have "int m dvd int (p - j)"
      by (simp only: int_dvd_int_iff)
    with assms(2) have "int m dvd int p - int j"
      by (simp add: of_nat_diff)
    then have "int m dvd int p - int m - int j"
      by (metis diff_right_commute dvd_diff dvd_refl)
    with le assms(2) show "int j \<le> int p - int m \<and> (int p - int m - int j) mod int m = 0"
      by auto
  next
    assume a: "int j \<le> int p - int m \<and> (int p - int m - int j) mod int m = 0"
    then have "int m dvd int p - int m - int j"
      by auto
    then have "int m dvd (int p - int m - int j) + int m"
      by (rule dvd_add) simp
    moreover have "(int p - int m - int j) + int m = int p - int j"
      by simp
    ultimately have "int m dvd int p - int j"
      by (simp only:)
    with assms(2) have "int m dvd int (p - j)"
      by (simp add: of_nat_diff)
    then have "m dvd p - j"
      by (simp only: int_dvd_int_iff)
    with iff show "j mod m = p mod m"
      by simp
  qed
qed

lemma residue_above:
  fixes j p m :: nat
  assumes "0 < m" and "p < j"
  shows "(j mod m = p mod m) = (p + m \<le> j \<and> (j - (p + m)) mod m = 0)"
proof -
  from assms(2) have iff: "(j mod m = p mod m) = (m dvd j - p)"
    using mod_eq_dvd_iff_nat [of p j m] by auto
  show ?thesis
  proof
    assume "j mod m = p mod m"
    with iff have d: "m dvd j - p"
      by simp
    with assms(2) have le: "m \<le> j - p"
      by (simp add: dvd_imp_le)
    from d have "m dvd j - p - m"
      by (rule dvd_diff_nat) simp
    with le assms show "p + m \<le> j \<and> (j - (p + m)) mod m = 0"
      by (auto simp: diff_diff_left)
  next
    assume a: "p + m \<le> j \<and> (j - (p + m)) mod m = 0"
    then have "m dvd j - (p + m)"
      by auto
    then have "m dvd (j - (p + m)) + m"
      by (rule dvd_add) simp
    moreover from a have "(j - (p + m)) + m = j - p"
      by simp
    ultimately have "m dvd j - p"
      by (simp only:)
    with iff show "j mod m = p mod m"
      by simp
  qed
qed

lemma rewire_pair:
  fixes d :: "nat list"
  assumes p: "p < length d"
  shows "\<exists>d2 d3. rewire_down (d[p := new]) new l (int p - 2 ^ l) = Some d2 \<and>
     rewire_up d2 new l (length d) (p + 2 ^ l) = Some d3 \<and> length d3 = length d \<and>
     (\<forall>j < length d. d3 ! j = (if j mod 2 ^ l = p mod 2 ^ l then new else d ! j))"
proof -
  let ?m = "(2::nat) ^ l"
  have "int p - 2 ^ l < int (length (d[p := new]))"
    using p by (simp add: less_le_trans [of _ "int p"])
  from rewire_down_nth [OF this, of new l] obtain d2 where
    r2: "rewire_down (d[p := new]) new l (int p - 2 ^ l) = Some d2"
    and len2: "length d2 = length d"
    and nth2: "\<And>j. j < length d \<Longrightarrow> d2 ! j =
      (if int j \<le> int p - 2 ^ l \<and> (int p - 2 ^ l - int j) mod 2 ^ l = 0 then new else d[p := new] ! j)"
    by auto
  from len2 have "length d \<le> length d2"
    by simp
  from rewire_up_nth [OF this, of new l "p + 2 ^ l"] len2 obtain d3 where
    r3: "rewire_up d2 new l (length d) (p + 2 ^ l) = Some d3"
    and len3: "length d3 = length d"
    and nth3: "\<And>j. j < length d \<Longrightarrow> d3 ! j =
      (if p + 2 ^ l \<le> j \<and> j < length d \<and> (j - (p + 2 ^ l)) mod 2 ^ l = 0 then new else d2 ! j)"
    by auto
  have "d3 ! j = (if j mod 2 ^ l = p mod 2 ^ l then new else d ! j)" if j: "j < length d" for j
  proof -
    consider (lt) "j < p" | (eq) "j = p" | (gt) "p < j"
      by linarith
    then show ?thesis
    proof cases
      case lt
      from residue_below [of ?m j p] lt
      have "(j mod 2 ^ l = p mod 2 ^ l) =
          (int j \<le> int p - 2 ^ l \<and> (int p - 2 ^ l - int j) mod 2 ^ l = 0)"
        by simp
      with nth3 [OF j] nth2 [OF j] lt show ?thesis
        by simp
    next
      case eq
      with nth3 [OF j] nth2 [OF j] j show ?thesis
        by simp
    next
      case gt
      from residue_above [of ?m p j] gt
      have "(j mod 2 ^ l = p mod 2 ^ l) = (p + 2 ^ l \<le> j \<and> (j - (p + 2 ^ l)) mod 2 ^ l = 0)"
        by simp
      moreover from gt have "\<not> int j \<le> int p - 2 ^ l"
        by (smt (verit) of_nat_less_iff zero_less_power)
      ultimately show ?thesis
        using nth3 [OF j] nth2 [OF j] gt j by simp
    qed
  qed
  with r2 r3 len3 show ?thesis
    by blast
qed

lemma card_residue:
  fixes g e r :: nat
  assumes "e \<le> g" and "r < 2 ^ e"
  shows "card {j. j < 2 ^ g \<and> j mod 2 ^ e = r} = 2 ^ (g - e)"
proof -
  let ?f = "\<lambda>k::nat. r + k * 2 ^ e"
  from assms(1) have pw: "(2::nat) ^ g = 2 ^ (g - e) * 2 ^ e"
    by (simp flip: power_add)
  have "{j. j < 2 ^ g \<and> j mod 2 ^ e = r} = ?f ` {..< 2 ^ (g - e)}"
  proof (intro equalityI subsetI)
    fix j
    assume "j \<in> {j. j < 2 ^ g \<and> j mod 2 ^ e = r}"
    then have j: "j < 2 ^ g" "j mod 2 ^ e = r"
      by simp_all
    from j(2) have eq: "j = ?f (j div 2 ^ e)"
      by (metis add.commute div_mult_mod_eq)
    from j(1) pw have "j div 2 ^ e < 2 ^ (g - e)"
      by (simp add: less_mult_imp_div_less)
    with eq show "j \<in> ?f ` {..< 2 ^ (g - e)}"
      by blast
  next
    fix j
    assume "j \<in> ?f ` {..< 2 ^ (g - e)}"
    then obtain k where k: "k < 2 ^ (g - e)" "j = r + k * 2 ^ e"
      by auto
    from k(1) have "Suc k \<le> 2 ^ (g - e)"
      by simp
    then have "Suc k * 2 ^ e \<le> 2 ^ (g - e) * 2 ^ e"
      by (rule mult_le_mono1)
    with assms(2) k(2) pw have "j < 2 ^ g"
      by simp
    moreover from k(2) assms(2) have "j mod 2 ^ e = r"
      by simp
    ultimately show "j \<in> {j. j < 2 ^ g \<and> j mod 2 ^ e = r}"
      by simp
  qed
  moreover have "inj_on ?f {..< 2 ^ (g - e)}"
    by (rule inj_onI) simp
  ultimately show ?thesis
    by (simp add: card_image)
qed

lemma dir_ok_count:
  assumes ok: "dir_ok g d dep" and a: "a \<in> set d"
  shows "count_list d a = 2 ^ (g - dep a)"
proof -
  note len = dir_ok_length [OF ok]
  from a len obtain i where i: "i < 2 ^ g" "d ! i = a"
    by (metis in_set_conv_nth)
  from dir_ok_depth [OF ok i(1)] i(2) have e: "dep a \<le> g"
    by simp
  have "count_list d a = card {j. j < length d \<and> d ! j = a}"
    by (simp add: count_list_eq_length_filter length_filter_conv_card eq_commute)
  also have "{j. j < length d \<and> d ! j = a} = {j. j < 2 ^ g \<and> j mod 2 ^ dep a = i mod 2 ^ dep a}"
    using dir_ok_share [OF ok i(1)] i(2) len by auto
  also have "card \<dots> = 2 ^ (g - dep a)"
    by (rule card_residue [OF e]) simp
  finally show ?thesis .
qed

lemma ht_struct_init: "ht_struct (ExtendibleHashTable_init sz)"
  by (simp add: ht_struct_def ExtendibleHashTable_init_def dir_ok_def Bucket_init_def lessThan_Suc)

lemma IndexOf_less: "IndexOf h t k < 2 ^ global_depth t"
  by (simp only: IndexOf_def and_mask_mod) simp

lemma ht_struct_slot:
  assumes "ht_struct t" and "i < 2 ^ global_depth t"
  shows "dir t ! i < length (buckets t)" and "bucket_at t i = Some (buckets t ! (dir t ! i))"
    and "b_depth (buckets t ! (dir t ! i)) \<le> global_depth t"
proof -
  from assms(1) have s: "set (dir t) = {..<length (buckets t)}"
    and ok: "dir_ok (global_depth t) (dir t) (\<lambda>a. b_depth (buckets t ! a))"
    by (simp_all add: ht_struct_def)
  note len = dir_ok_length [OF ok]
  from assms(2) len have "dir t ! i \<in> set (dir t)"
    by simp
  with s show 1: "dir t ! i < length (buckets t)"
    by simp
  with assms(2) len show "bucket_at t i = Some (buckets t ! (dir t ! i))"
    by (simp add: bucket_at_def)
  from dir_ok_depth [OF ok assms(2)] show "b_depth (buckets t ! (dir t ! i)) \<le> global_depth t" .
qed

lemma ht_struct_cong:
  assumes s: "ht_struct t" and g: "global_depth t' = global_depth t" and d: "dir t' = dir t"
    and m: "map b_depth (buckets t') = map b_depth (buckets t)"
  shows "ht_struct t'"
proof -
  from m have len: "length (buckets t') = length (buckets t)"
    by (rule map_eq_imp_length_eq)
  have dep: "b_depth (buckets t' ! a) = b_depth (buckets t ! a)" if "a < length (buckets t)" for a
    using that len nth_map [of a "buckets t" b_depth] nth_map [of a "buckets t'" b_depth] m by simp
  from s have ok: "dir_ok (global_depth t) (dir t) (\<lambda>a. b_depth (buckets t ! a))"
    and st: "set (dir t) = {..<length (buckets t)}" and le: "global_depth t \<le> 30"
    by (simp_all add: ht_struct_def)
  have "dir_ok (global_depth t) (dir t) (\<lambda>a. b_depth (buckets t' ! a))"
  proof (rule dir_ok_cong [OF ok])
    fix i :: nat
    assume "i < 2 ^ global_depth t"
    from ht_struct_slot(1) [OF s this] show "b_depth (buckets t' ! (dir t ! i)) = b_depth (buckets t ! (dir t ! i))"
      by (rule dep)
  qed
  with st le len g d show ?thesis
    by (simp add: ht_struct_def)
qed

lemma map_b_depth_update:
  assumes "a < length bs" and "b_depth b = b_depth (bs ! a)"
  shows "map b_depth (bs[a := b]) = map b_depth bs"
  using assms by (simp add: map_update list_update_same_conv)

lemma Bucket_Insert_depth: "b_depth (snd (Bucket_Insert b k v)) = b_depth b"
  by (simp add: Bucket_Insert_def)

lemma bucket_at_SomeD:
  assumes "bucket_at t i = Some b"
  shows "i < length (dir t)" and "dir t ! i < length (buckets t)" and "b = buckets t ! (dir t ! i)"
  using assms by (simp_all add: bucket_at_def split: if_splits)

lemma reinsert_depths:
  assumes "reinsert h t xs = Some t'"
  shows "map b_depth (buckets t') = map b_depth (buckets t)"
  using assms
proof (induction xs arbitrary: t)
  case Nil
  then show ?case by simp
next
  case (Cons x xs)
  from Cons.prems obtain b where b: "bucket_at t (IndexOf h t (fst x)) = Some b" and
    r: "reinsert h (t\<lparr>buckets := (buckets t)[dir t ! IndexOf h t (fst x) :=
          snd (Bucket_Insert b (fst x) (snd x))]\<rparr>) xs = Some t'"
    by (auto split: option.splits)
  from bucket_at_SomeD [OF b] Bucket_Insert_depth [of b]
  have "map b_depth ((buckets t)[dir t ! IndexOf h t (fst x) := snd (Bucket_Insert b (fst x) (snd x))])
      = map b_depth (buckets t)"
    by (intro map_b_depth_update) simp_all
  with Cons.IH [OF r] show ?case
    by simp
qed

lemma grow_dir_struct:
  assumes s: "ht_struct t" and bn: "bn < 2 ^ global_depth t"
    and g: "grow_dir (t\<lparr>buckets := (buckets t)[dir t ! bn := b1]\<rparr>) (Suc (b_depth (buckets t ! (dir t ! bn)))) = Some t2"
  shows "dir_ok (global_depth t2) (dir t2) (\<lambda>a. b_depth (buckets t ! a))"
    and "b_depth (buckets t ! (dir t ! bn)) < global_depth t2"
    and "global_depth t2 \<le> 30"
    and "dir t2 ! bn = dir t ! bn"
    and "set (dir t2) = set (dir t)"
    and "buckets t2 = (buckets t)[dir t ! bn := b1]"
    and "bucket_size t2 = bucket_size t"
    and "bn < 2 ^ global_depth t2"
proof -
  let ?t1 = "t\<lparr>buckets := (buckets t)[dir t ! bn := b1]\<rparr>"
  let ?l = "b_depth (buckets t ! (dir t ! bn))"
  from s have ok: "dir_ok (global_depth t) (dir t) (\<lambda>a. b_depth (buckets t ! a))"
    and le: "global_depth t \<le> 30"
    by (simp_all add: ht_struct_def)
  note len = dir_ok_length [OF ok]
  note l = ht_struct_slot(3) [OF s bn]
  from g have "dir_ok (global_depth t2) (dir t2) (\<lambda>a. b_depth (buckets t ! a)) \<and>
    ?l < global_depth t2 \<and> global_depth t2 \<le> 30 \<and> dir t2 ! bn = dir t ! bn \<and>
    set (dir t2) = set (dir t) \<and> buckets t2 = (buckets t)[dir t ! bn := b1] \<and>
    bucket_size t2 = bucket_size t \<and> bn < 2 ^ global_depth t2"
  proof (cases rule: grow_dir_SomeE)
    case same
    with ok le bn show ?thesis
      by simp
  next
    case (doubled d)
    from len have "double_dir (dir t) 0 (2 ^ global_depth t) = Some (dir t @ dir t)"
      by (rule double_dir_eq)
    with doubled(3) have d: "d = dir t @ dir t"
      by simp
    from doubled(1) l have eq: "?l = global_depth t"
      by simp
    from bn len have "(dir t @ dir t) ! bn = dir t ! bn"
      by (simp add: nth_append)
    moreover from bn have "bn < 2 ^ Suc (global_depth t)"
      by simp
    ultimately show ?thesis
      using doubled(2,4) d eq dir_ok_double [OF ok] by simp
  qed
  then show "dir_ok (global_depth t2) (dir t2) (\<lambda>a. b_depth (buckets t ! a))"
    and "b_depth (buckets t ! (dir t ! bn)) < global_depth t2"
    and "global_depth t2 \<le> 30"
    and "dir t2 ! bn = dir t ! bn"
    and "set (dir t2) = set (dir t)"
    and "buckets t2 = (buckets t)[dir t ! bn := b1]"
    and "bucket_size t2 = bucket_size t"
    and "bn < 2 ^ global_depth t2"
    by simp_all
qed

lemma split_bucket_struct:
  assumes s: "ht_struct t" and bn: "bn < 2 ^ global_depth t"
    and sp: "split_bucket h t bn = Some t'"
  shows "ht_struct t'"
  using sp
proof (cases rule: split_bucket_SomeE)
  case (1 b0 t2)
  let ?a = "dir t ! bn"
  let ?l = "b_depth (buckets t ! ?a)"
  let ?new = "length (buckets t)"
  let ?pi = "bn XOR push_bit ?l 1"
  let ?dep = "\<lambda>a. b_depth (buckets t ! a)"
  note a = ht_struct_slot(1) [OF s bn]
  from ht_struct_slot(2) [OF s bn] 1(1) have b0: "b0 = buckets t ! ?a"
    by simp
  from s have st: "set (dir t) = {..<length (buckets t)}"
    by (simp add: ht_struct_def)
  note g = grow_dir_struct [OF s bn 1(2) [unfolded b0]]
  note len2 = dir_ok_length [OF g(1)]
  have pidx: "PairIndex bn (Suc ?l) = ?pi"
    by (simp add: PairIndex_def)
  from bn g(2) g(8) have pi: "?pi < length (dir t2)"
    unfolding len2 by (intro pair_bound)
  from 1(3) [unfolded b0] obtain d2 d3 where
    r2: "rewire_down ((dir t2)[?pi := length (buckets t2)]) (length (buckets t2)) (Suc ?l)
       (int ?pi - 2 ^ Suc ?l) = Some d2"
    and r3: "rewire_up d2 (length (buckets t2)) (Suc ?l) (2 ^ global_depth t2) (?pi + 2 ^ Suc ?l) = Some d3"
    and re: "reinsert h (t2\<lparr>dir := d3, buckets := (buckets t2)[?a := ClearItems (buckets t2 ! ?a)] @
        [Bucket_init (bucket_size t2) (Suc ?l)]\<rparr>) (GetCopiedItems (buckets t2 ! ?a)) = Some t'"
    by (cases rule: install_pair_SomeE) (simp add: pidx)
  from g(6) have lb: "length (buckets t2) = ?new"
    by simp
  from rewire_pair [OF pi, of ?new "Suc ?l"] r2 r3 lb len2
  have len3: "length d3 = 2 ^ global_depth t2"
    and nth3: "\<And>j. j < 2 ^ global_depth t2 \<Longrightarrow>
      d3 ! j = (if j mod 2 ^ Suc ?l = ?pi mod 2 ^ Suc ?l then ?new else dir t2 ! j)"
    by auto
  let ?bs = "(buckets t2)[?a := ClearItems (buckets t2 ! ?a)] @ [Bucket_init (bucket_size t2) (Suc ?l)]"
  let ?t3 = "t2\<lparr>dir := d3, buckets := ?bs\<rparr>"
  let ?dep' = "\<lambda>x. b_depth (?bs ! x)"
  have new: "?new \<notin> set (dir t2)"
    using g(5) st by simp
  have da: "?dep' (dir t2 ! bn) = Suc ?l"
    using a g(4) g(6) b0 by (simp add: nth_append ClearItems_def IncrementDepth_def)
  have dn: "?dep' ?new = Suc ?l"
    using lb by (simp add: nth_append Bucket_init_def)
  have other: "?dep' x = ?dep x" if "x \<in> set (dir t2)" "x \<noteq> dir t2 ! bn" for x
  proof -
    from that(1) g(5) st have "x < ?new"
      by simp
    with that(2) g(4) g(6) show ?thesis
      by (simp add: nth_append)
  qed
  from g(4) have l2: "?dep (dir t2 ! bn) = ?l"
    by simp
  from dir_ok_split [OF g(1) g(8) l2 g(2) new len3 nth3 da dn other]
  have ok3: "dir_ok (global_depth t2) d3 ?dep'" and set3: "set d3 = insert ?new (set (dir t2))"
    by simp_all
  from set3 g(5) st lb have "set d3 = {..<length ?bs}"
    by (auto simp: lessThan_Suc)
  with ok3 g(3) have s3: "ht_struct ?t3"
    by (simp add: ht_struct_def)
  from reinsert_frame [OF re] reinsert_depths [OF re] show ?thesis
    by (intro ht_struct_cong [OF s3]) simp_all
qed

lemma HT_Insert_struct:
  assumes "HT_Insert h t k v = Some t'" and "ht_struct t"
  shows "ht_struct t'"
proof (rule HT_Insert_rule [OF assms(1), where I = ht_struct])
  show "ht_struct t" by (rule assms(2))
next
  fix s s1 :: "('a, 'b) ExtendibleHashTable"
  assume "ht_struct s" and "split_bucket h s (IndexOf h s k) = Some s1"
  with IndexOf_less [of h s k] show "ht_struct s1"
    using split_bucket_struct [of s "IndexOf h s k" h s1] by simp
next
  fix s :: "('a, 'b) ExtendibleHashTable" and b
  assume s: "ht_struct s" and b: "bucket_at s (IndexOf h s k) = Some b"
  from bucket_at_SomeD [OF b] Bucket_Insert_depth [of b k v]
  have "map b_depth ((buckets s)[dir s ! IndexOf h s k := snd (Bucket_Insert b k v)])
      = map b_depth (buckets s)"
    by (intro map_b_depth_update) simp_all
  then show "ht_struct (s\<lparr>buckets := (buckets s)[dir s ! IndexOf h s k := snd (Bucket_Insert b k v)]\<rparr>)"
    by (intro ht_struct_cong [OF s]) simp_all
qed

lemma Bucket_Remove_depth: "Bucket_Remove b k = Some (found, b1) \<Longrightarrow> b_depth b1 = b_depth b"
  by (auto simp: Bucket_Remove_def split: if_splits)

lemma HT_Remove_struct:
  assumes "HT_Remove h t k = Some (found, t')" and s: "ht_struct t"
  shows "ht_struct t'"
  using assms(1)
proof (cases rule: HT_Remove_SomeE)
  case (1 b b1)
  from bucket_at_SomeD [OF 1(1)] Bucket_Remove_depth [OF 1(2)]
  have "map b_depth ((buckets t)[dir t ! IndexOf h t k := b1]) = map b_depth (buckets t)"
    by (intro map_b_depth_update) simp_all
  with 1(3) show ?thesis
    by (intro ht_struct_cong [OF s]) simp_all
qed

lemma ht_step_struct:
  assumes "ht_step h t x = Some t'" and s: "ht_struct t"
  shows "ht_struct t'"
proof (cases x)
  case (Op_Insert k v)
  with assms show ?thesis
    by (simp add: HT_Insert_struct)
next
  case (Op_Remove k)
  with assms(1) obtain found where "HT_Remove h t k = Some (found, t')"
    by auto
  then show ?thesis
    using s by (rule HT_Remove_struct)
next
  case (Op_Find k)
  with assms show ?thesis
    by auto
qed

lemma ht_run_struct:
  assumes "ht_run h t xs = Some t'" and "ht_struct t"
  shows "ht_struct t'"
  using assms
proof (induction xs arbitrary: t)
  case Nil
  then show ?case by simp
next
  case (Cons x xs)
  from Cons.prems(1) obtain t1 where s: "ht_step h t x = Some t1" and r: "ht_run h t1 xs = Some t'"
    by (auto split: option.splits)
  from ht_step_struct [OF s Cons.prems(2)] show ?case
    by (rule Cons.IH [OF r])
qed

text \<open>
  Claim C4. After every sequence of Insert, Remove and Find on a new table, for every
  hash function and bucket size: the directory has \<open>2 ^ global_depth\<close> slots, every slot
  holds a bucket whose local depth is at most the global depth, and every bucket made so
  far has a local depth of at most the global depth and is in exactly
  \<open>2 ^ (global_depth - local_depth)\<close> slots of the directory.
\<close>

theorem directory_slots_per_bucket:
  assumes "ht_run h (ExtendibleHashTable_init sz) xs = Some t"
  shows "length (dir t) = 2 ^ GetGlobalDepth t \<and>
    (\<forall>i < length (dir t). \<exists>d. GetLocalDepth t i = Some d \<and> d \<le> GetGlobalDepth t) \<and>
    (\<forall>a < length (buckets t).
        GetDepth (buckets t ! a) \<le> GetGlobalDepth t \<and>
        count_list (dir t) a = 2 ^ (GetGlobalDepth t - GetDepth (buckets t ! a)))"
proof -
  from ht_run_struct [OF assms ht_struct_init] have s: "ht_struct t" .
  then have ok: "dir_ok (global_depth t) (dir t) (\<lambda>a. b_depth (buckets t ! a))"
    and st: "set (dir t) = {..<length (buckets t)}"
    by (simp_all add: ht_struct_def)
  note len = dir_ok_length [OF ok]
  have 1: "\<exists>d. GetLocalDepth t i = Some d \<and> d \<le> GetGlobalDepth t" if "i < length (dir t)" for i
  proof -
    from that len have i: "i < 2 ^ global_depth t"
      by simp
    from ht_struct_slot(2,3) [OF s i] show ?thesis
      by (simp add: GetLocalDepth_def GetGlobalDepth_def GetDepth_def)
  qed
  have 2: "GetDepth (buckets t ! a) \<le> GetGlobalDepth t \<and>
      count_list (dir t) a = 2 ^ (GetGlobalDepth t - GetDepth (buckets t ! a))"
    if "a < length (buckets t)" for a
  proof -
    from that st have a: "a \<in> set (dir t)"
      by simp
    then obtain i where i: "i < 2 ^ global_depth t" "dir t ! i = a"
      using len by (metis in_set_conv_nth)
    from ht_struct_slot(3) [OF s i(1)] i(2) dir_ok_count [OF ok a] show ?thesis
      by (simp add: GetGlobalDepth_def GetDepth_def)
  qed
  from len 1 2 show ?thesis
    by (simp add: GetGlobalDepth_def)
qed

theorem directory_slots_per_bucket_witness:
  "ht_run (\<lambda>k. nat k) (ExtendibleHashTable_init 2)
     [Op_Insert 0 10, Op_Insert 1 11, Op_Insert 2 12, Op_Insert 3 13, Op_Insert 4 14,
      Op_Remove 1, Op_Find 3] =
     Some
       \<lparr>global_depth = 2, bucket_size = 2, num_buckets = 1, dir = [0, 1, 2, 1],
         buckets =
           [\<lparr>b_size = 2, b_depth = 2, b_list = [(0, 10), (4, 14)]\<rparr>,
            \<lparr>b_size = 2, b_depth = 1, b_list = [(3, 13)]\<rparr>,
            \<lparr>b_size = 2, b_depth = 2, b_list = [(2::int, 12::int)]\<rparr>]\<rparr> \<and>
   length [0::nat, 1, 2, 1] = 2 ^ 2 \<and>
   count_list [0::nat, 1, 2, 1] 0 = 2 ^ (2 - 2) \<and>
   count_list [0::nat, 1, 2, 1] 1 = 2 ^ (2 - 1) \<and>
   count_list [0::nat, 1, 2, 1] 2 = 2 ^ (2 - 2)"
proof -
  let ?t = "\<lparr>global_depth = 2, bucket_size = 2, num_buckets = 1, dir = [0, 1, 2, 1],
         buckets =
           [\<lparr>b_size = 2, b_depth = 2, b_list = [(0, 10), (4, 14)]\<rparr>,
            \<lparr>b_size = 2, b_depth = 1, b_list = [(3, 13)]\<rparr>,
            \<lparr>b_size = 2, b_depth = 2, b_list = [(2::int, 12::int)]\<rparr>]\<rparr>"
  have run: "ht_run (\<lambda>k. nat k) (ExtendibleHashTable_init 2)
     [Op_Insert 0 10, Op_Insert 1 11, Op_Insert 2 12, Op_Insert 3 13, Op_Insert 4 14,
      Op_Remove 1, Op_Find 3] = Some ?t"
    by code_simp
  note th = directory_slots_per_bucket [OF run]
  note c = th [THEN conjunct2, THEN conjunct2, rule_format]
  from th have 0: "length [0::nat, 1, 2, 1] = 2 ^ 2"
    by (simp add: GetGlobalDepth_def)
  from c [of 0] have 1: "count_list [0::nat, 1, 2, 1] 0 = 2 ^ (2 - 2)"
    by (simp add: GetGlobalDepth_def GetDepth_def)
  from c [of 1] have 2: "count_list [0::nat, 1, 2, 1] 1 = 2 ^ (2 - 1)"
    by (simp add: GetGlobalDepth_def GetDepth_def)
  from c [of 2] have 3: "count_list [0::nat, 1, 2, 1] 2 = 2 ^ (2 - 2)"
    by (simp add: GetGlobalDepth_def GetDepth_def)
  from run 0 1 2 3 show ?thesis
    by (simp only: simp_thms)
qed

end
